theory Spec2Isabelle
  imports Main "HOL-Library.Word" "HOL-Library.Monad_Syntax"
begin

section \<open>The view store\<close>

text \<open>
  Views are heap objects addressed by pointers.  A pointer is a \<open>ref\<close>; a nullable
  pointer is a \<open>ref option\<close> with \<open>None\<close> for \<open>nullptr\<close>.  The store maps every
  pointer to the object it points to.  \<open>size_t\<close> is a 64-bit unsigned word, so
  arithmetic on it wraps modulo \<open>2 ^ 64\<close>.
\<close>

type_synonym ref = nat
type_synonym size_t = "64 word"

datatype Axis = ROW | COLUMN

datatype FocusDirection = UP | DOWN | LEFT | RIGHT

text \<open>
  One record holds the fields of \<open>View\<close> and of \<open>Box\<close>; \<open>isBox\<close> is the dynamic type
  (what \<open>dynamic_cast<Box*>\<close> tests).  \<open>parentUserData\<close> is the \<open>size_t\<close> cell that
  \<open>addView\<close> allocates for the child: the cell is reachable through its view only, so
  it is stored by value, and \<open>None\<close> is the null user data.  \<open>ygChildren\<close> is the child
  list of the view's \<open>ygNode\<close>, each LayoutNode named by the view that owns it.
  \<open>focusable\<close>, \<open>detached\<close> and \<open>knownAttributes\<close> are what \<open>isFocusable()\<close>,
  \<open>isDetached()\<close> and \<open>isXMLAttributeValid()\<close> of the base class answer.
\<close>

record view =
  isBox :: bool
  focusable :: bool
  detached :: bool
  parent :: "ref option"
  parentUserData :: "size_t option"
  knownAttributes :: "string list"
  children :: "ref list"
  ygChildren :: "ref list"
  layoutDirty :: bool
  axis :: Axis
  lastFocusedView :: "ref option"
  defaultFocusedIndex :: size_t
  forwardedAttributes :: "string \<rightharpoonup> (string \<times> ref)"

type_synonym store = "ref \<Rightarrow> view"

text \<open>
  The hooks of the base class that \<open>Box\<close> calls on a child are virtual and their bodies
  are not part of \<open>box.cpp\<close>; each call is recorded as an event.
\<close>

datatype event =
  WillAppear ref
  | WillDisappear ref bool
  | FreeView ref

record ui =
  views :: store
  events :: "event list"

datatype fatal_reason = CannotInsertView | InvalidForwardTarget | ForwardedTwice

datatype error = Fatal fatal_reason

text \<open>\<open>std::vector::size()\<close>, a \<open>size_t\<close>.\<close>

definition size_of :: "'a list \<Rightarrow> size_t" where
  "size_of xs = of_nat (length xs)"

text \<open>\<open>v.insert(v.begin() + n, x)\<close> and \<open>v.erase(v.begin() + n)\<close>.\<close>

definition insert_at :: "nat \<Rightarrow> 'a \<Rightarrow> 'a list \<Rightarrow> 'a list" where
  "insert_at n x xs = take n xs @ x # drop n xs"

definition erase_at :: "nat \<Rightarrow> 'a list \<Rightarrow> 'a list" where
  "erase_at n xs = take n xs @ drop (Suc n) xs"

section \<open>Box: child management\<close>

text \<open>
  Modelled from the spec: \<open>View::invalidate\<close> is not in the sources; the spec says the
  mutation "marks the subtree layout-dirty".
\<close>

definition invalidate :: "ref \<Rightarrow> store \<Rightarrow> store" where
  "invalidate this s = s(this := (s this)\<lparr>layoutDirty := True\<rparr>)"

text \<open>
  Modelled from the spec: \<open>View::setParent\<close> is not in the sources; the spec says the
  child's parent reference is set to the Box and the index cache is assigned to it.
\<close>

definition setParent :: "ref \<Rightarrow> ref option \<Rightarrow> size_t option \<Rightarrow> store \<Rightarrow> store" where
  "setParent v p userdata s = s(v := (s v)\<lparr>parent := p, parentUserData := userdata\<rparr>)"

text \<open>
  Modelled from the spec: the flexbox library is an external dependency, so its three
  functions that \<open>Box\<close> calls are taken from the spec, which says that the child is
  inserted "at the same position in the LayoutNode tree" and removed from it again.
  The spec says nothing of a position beyond the child count of the LayoutNode; the
  list operation then puts the child last, and the properties of \<open>addView\<close> proved
  below speak of the LayoutNode only for positions within its child count.
\<close>

definition YGNodeInsertChild :: "ref \<Rightarrow> ref \<Rightarrow> size_t \<Rightarrow> store \<Rightarrow> store" where
  "YGNodeInsertChild node child position s =
     s(node := (s node)\<lparr>ygChildren := insert_at (unat position) child (ygChildren (s node))\<rparr>)"

definition YGNodeRemoveChild :: "ref \<Rightarrow> ref \<Rightarrow> store \<Rightarrow> store" where
  "YGNodeRemoveChild node child s =
     s(node := (s node)\<lparr>ygChildren := remove1 child (ygChildren (s node))\<rparr>)"

definition YGNodeGetChildCount :: "ref \<Rightarrow> store \<Rightarrow> size_t" where
  "YGNodeGetChildCount node s = size_of (ygChildren (s node))"

text \<open>
  The body of the re-stamping loop of \<open>addView\<close>: the user data of \<open>children[i]\<close> is
  read, and when it is not null the \<open>size_t\<close> it points to is incremented.
\<close>

definition bumpIndex :: "ref \<Rightarrow> store \<Rightarrow> store" where
  "bumpIndex c s = s(c := (s c)\<lparr>parentUserData := map_option (\<lambda>i. i + 1) (parentUserData (s c))\<rparr>)"

text \<open>
  \<open>for (size_t i = position + 1; i < children.size(); i++)\<close>: the loop body never
  writes a child list, so the loop visits the children behind \<open>position\<close> in order.
  It runs after the bounds check and the insertion, so \<open>position\<close> is below
  \<open>children.size()\<close> and \<open>position + 1\<close> does not wrap.
\<close>

definition restamp :: "ref \<Rightarrow> size_t \<Rightarrow> store \<Rightarrow> store" where
  "restamp this position s = fold bumpIndex (drop (unat position + 1) (children (s this))) s"

text \<open>\<open>Box::addView(View* view, size_t position)\<close>.  \<open>position < 0\<close> is never true of a \<open>size_t\<close>.\<close>

definition addView :: "ref \<Rightarrow> ref \<Rightarrow> size_t \<Rightarrow> ui \<Rightarrow> error + ui" where
  "addView this v position u =
     (let s = views u in
      if size_of (children (s this)) < position \<or> position < 0 then Inl (Fatal CannotInsertView)
      else
        let s1 = s(this := (s this)\<lparr>children := insert_at (unat position) v (children (s this))\<rparr>);
            s2 = (if \<not> detached (s1 v) then YGNodeInsertChild this v position s1 else s1);
            s3 = setParent v (Some this) (Some position) s2;
            s4 = restamp this position s3;
            s5 = invalidate this s4
        in Inr (u\<lparr>views := s5, events := events u @ [WillAppear v]\<rparr>))"

text \<open>\<open>Box::addView(View* view)\<close>: the position is the child count of the LayoutNode.\<close>

definition addViewLast :: "ref \<Rightarrow> ref \<Rightarrow> ui \<Rightarrow> error + ui" where
  "addViewLast this v u = addView this v (YGNodeGetChildCount this (views u)) u"

text \<open>The search loop of \<open>removeView\<close>: the first index holding the view.\<close>

fun findView :: "ref \<Rightarrow> ref list \<Rightarrow> nat option" where
  "findView v [] = None"
| "findView v (c # cs) = (if c = v then Some 0 else map_option Suc (findView v cs))"

text \<open>\<open>Box::removeView(View* view, bool free)\<close>; the view pointer may be null.\<close>

definition removeView :: "ref \<Rightarrow> ref option \<Rightarrow> bool \<Rightarrow> ui \<Rightarrow> ui" where
  "removeView this view free u =
     (case view of
        None \<Rightarrow> u
      | Some v \<Rightarrow>
          (case findView v (children (views u this)) of
             None \<Rightarrow> u
           | Some idx \<Rightarrow>
               let s = views u;
                   s1 = (if \<not> detached (s v) then YGNodeRemoveChild this v s else s);
                   s2 = s1(this := (s1 this)\<lparr>children := erase_at idx (children (s1 this))\<rparr>);
                   ev = events u @ [WillDisappear v True] @ (if free then [FreeView v] else []);
                   s3 = invalidate this s2
               in u\<lparr>views := s3, events := ev\<rparr>))"

text \<open>\<open>Box::setDefaultFocusedIndex(int index)\<close>; \<open>int\<close> is a 32-bit signed word.\<close>

definition setDefaultFocusedIndex :: "ref \<Rightarrow> 32 word \<Rightarrow> store \<Rightarrow> store" where
  "setDefaultFocusedIndex this idx s =
     (if sint idx < 0 then s
      else s(this := (s this)\<lparr>defaultFocusedIndex := scast idx\<rparr>))"

text \<open>
  The invariant of the index cache: the user data of the children of a Box, in the
  order of the child sequence, are the positions \<open>0, 1, 2, ...\<close>
\<close>

definition indexCached :: "store \<Rightarrow> ref \<Rightarrow> bool" where
  "indexCached s this \<longleftrightarrow>
     map (\<lambda>c. parentUserData (s c)) (children (s this))
       = map (\<lambda>i. Some (of_nat i)) [0 ..< length (children (s this))]"

section \<open>Box: attribute forwarding\<close>

text \<open>
  Modelled from the spec: \<open>View::isXMLAttributeValid\<close> is not in the sources; the spec
  calls a valid name "a valid configurable property" of the view, which the store keeps
  in \<open>knownAttributes\<close>.
\<close>

definition isXMLAttributeValid :: "ref \<Rightarrow> string \<Rightarrow> store \<Rightarrow> bool" where
  "isXMLAttributeValid v attributeName s \<longleftrightarrow> attributeName \<in> set (knownAttributes (s v))"

text \<open>
  \<open>Box::forwardXMLAttribute(attributeName, target, targetAttributeName)\<close>;
  \<open>forwardedAttributes.count(name) > 0\<close> is membership in the domain of the map.
\<close>

definition forwardXMLAttribute ::
  "ref \<Rightarrow> string \<Rightarrow> ref \<Rightarrow> string \<Rightarrow> store \<Rightarrow> error + store" where
  "forwardXMLAttribute this attributeName target targetAttributeName s =
     (if \<not> isXMLAttributeValid target targetAttributeName s then Inl (Fatal InvalidForwardTarget)
      else if attributeName \<in> dom (forwardedAttributes (s this)) then Inl (Fatal ForwardedTwice)
      else Inr (s(this := (s this)\<lparr>forwardedAttributes :=
                  (forwardedAttributes (s this))(attributeName \<mapsto> (targetAttributeName, target))\<rparr>)))"

text \<open>\<open>Box::forwardXMLAttribute(attributeName, target)\<close>: the target name is the same name.\<close>

definition forwardXMLAttributeSame :: "ref \<Rightarrow> string \<Rightarrow> ref \<Rightarrow> store \<Rightarrow> error + store" where
  "forwardXMLAttributeSame this attributeName target s =
     forwardXMLAttribute this attributeName target attributeName s"

text \<open>
  \<open>applyXMLAttribute\<close> is virtual.  On a Box it is \<open>Box::applyXMLAttribute\<close>, which
  consults the forwarding table and otherwise calls \<open>View::applyXMLAttribute\<close>; on any
  other view it is \<open>View::applyXMLAttribute\<close>, whose body is not in the sources and is
  recorded as the call \<open>ViewApply view name value\<close>.  A forwarding chain that runs in a
  circle never returns; the result is then \<open>None\<close>.
\<close>

datatype applied = ViewApply ref string string

partial_function (option) applyXMLAttribute ::
  "store \<Rightarrow> ref \<Rightarrow> string \<Rightarrow> string \<Rightarrow> applied option" where
  "applyXMLAttribute s this name val =
     (if isBox (s this) then
        (case forwardedAttributes (s this) name of
           Some pair \<Rightarrow> applyXMLAttribute s (snd pair) (fst pair) val
         | None \<Rightarrow> Some (ViewApply this name val))
      else Some (ViewApply this name val))"

section \<open>Box: focus resolution\<close>

text \<open>
  The functions of this section follow pointers through the store, so on a store whose
  pointers run in a circle they need not return.  Each is a partial function into
  \<open>option\<close>: \<open>None\<close> says that the call does not return a value (it runs forever, or it
  dereferences a null pointer), \<open>Some r\<close> that it returns the nullable pointer \<open>r\<close>.
\<close>

text \<open>
  Modelled from the spec: \<open>View::getDefaultFocus\<close> of the base class is not in the
  sources; by the spec a view that is not a container resolves to itself when it is
  focusable and to null otherwise.
\<close>

definition View_getDefaultFocus :: "store \<Rightarrow> ref \<Rightarrow> ref option" where
  "View_getDefaultFocus s this = (if focusable (s this) then Some this else None)"

text \<open>
  \<open>getDefaultFocus\<close> is virtual: \<open>Box::getDefaultFocus\<close> on a Box,
  \<open>View::getDefaultFocus\<close> otherwise.  \<open>Resolve v\<close> is the call \<open>v->getDefaultFocus()\<close>;
  \<open>FirstOf cs\<close> is the fallback loop of \<open>Box::getDefaultFocus\<close> over the children \<open>cs\<close>
  that are still to be visited.
\<close>

datatype focus_call = Resolve ref | FirstOf "ref list"

partial_function (option) defaultFocus :: "store \<Rightarrow> focus_call \<Rightarrow> ref option option" where
  "defaultFocus s c =
     (case c of
        Resolve this \<Rightarrow>
          if \<not> isBox (s this) then Some (View_getDefaultFocus s this)
          else if focusable (s this) then Some (Some this)
          else
            (case lastFocusedView (s this) of
               Some l \<Rightarrow> defaultFocus s (Resolve l)
             | None \<Rightarrow>
                 if defaultFocusedIndex (s this) < size_of (children (s this)) then
                   do {
                     newFocus \<leftarrow> defaultFocus s
                       (Resolve (children (s this) ! unat (defaultFocusedIndex (s this))));
                     if newFocus \<noteq> None then Some newFocus
                     else defaultFocus s (FirstOf (children (s this)))
                   }
                 else defaultFocus s (FirstOf (children (s this))))
      | FirstOf [] \<Rightarrow> Some None
      | FirstOf (child # rest) \<Rightarrow>
          do {
            newFocus \<leftarrow> defaultFocus s (Resolve child);
            if newFocus \<noteq> None then Some newFocus else defaultFocus s (FirstOf rest)
          })"

definition getDefaultFocus :: "store \<Rightarrow> ref \<Rightarrow> ref option option" where
  "getDefaultFocus s this = defaultFocus s (Resolve this)"

text \<open>
  The sibling scan of \<open>Box::getNextFocus\<close>:
  \<open>while (!currentFocus && currentFocusIndex >= 0 && currentFocusIndex < children.size())\<close>.
  Index and offset are \<open>size_t\<close>; the offset \<open>-1\<close> is the word \<open>2 ^ 64 - 1\<close>.
\<close>

partial_function (option) scanLoop ::
  "store \<Rightarrow> ref list \<Rightarrow> size_t \<Rightarrow> size_t \<Rightarrow> ref option option" where
  "scanLoop s cs offset currentFocusIndex =
     (if 0 \<le> currentFocusIndex \<and> currentFocusIndex < size_of cs then
        do {
          currentFocus \<leftarrow> getDefaultFocus s (cs ! unat currentFocusIndex);
          if currentFocus \<noteq> None then Some currentFocus
          else scanLoop s cs offset (currentFocusIndex + offset)
        }
      else Some None)"

text \<open>\<open>Box::getParentNavigationDecision\<close>; \<open>hasParent()\<close> is \<open>parent \<noteq> nullptr\<close>.\<close>

partial_function (option) getParentNavigationDecision ::
  "store \<Rightarrow> ref \<Rightarrow> ref \<Rightarrow> ref option \<Rightarrow> FocusDirection \<Rightarrow> ref option option" where
  "getParentNavigationDecision s this from newFocus direction =
     (case parent (s this) of
        None \<Rightarrow> Some newFocus
      | Some p \<Rightarrow> getParentNavigationDecision s p from newFocus direction)"

text \<open>The two conditions of \<open>Box::getNextFocus\<close> on axis and direction.\<close>

definition mismatches :: "Axis \<Rightarrow> FocusDirection \<Rightarrow> bool" where
  "mismatches a direction \<longleftrightarrow>
     (a = ROW \<and> direction \<noteq> LEFT \<and> direction \<noteq> RIGHT)
     \<or> (a = COLUMN \<and> direction \<noteq> UP \<and> direction \<noteq> DOWN)"

definition scanOffset :: "Axis \<Rightarrow> FocusDirection \<Rightarrow> size_t" where
  "scanOffset a direction =
     (if (a = ROW \<and> direction = LEFT) \<or> (a = COLUMN \<and> direction = UP) then - 1 else 1)"

text \<open>
  \<open>Box::getNextFocus(direction, currentView)\<close>.  The user data of \<open>currentView\<close> is
  dereferenced in the aligned branch only; a null user data there is a null
  dereference.
\<close>

partial_function (option) getNextFocus ::
  "store \<Rightarrow> ref \<Rightarrow> FocusDirection \<Rightarrow> ref \<Rightarrow> ref option option" where
  "getNextFocus s this direction currentView =
     (if mismatches (axis (s this)) direction then
        do {
          next \<leftarrow> getParentNavigationDecision s this this None direction;
          if next = None \<and> parent (s this) \<noteq> None
          then getNextFocus s (the (parent (s this))) direction this
          else Some next
        }
      else
        (case parentUserData (s currentView) of
           None \<Rightarrow> None
         | Some cached \<Rightarrow>
             do {
               found \<leftarrow> scanLoop s (children (s this)) (scanOffset (axis (s this)) direction)
                          (cached + scanOffset (axis (s this)) direction);
               currentFocus \<leftarrow> getParentNavigationDecision s this this found direction;
               if currentFocus = None \<and> parent (s this) \<noteq> None
               then getNextFocus s (the (parent (s this))) direction this
               else Some currentFocus
             }))"

text \<open>\<open>Box::onChildFocusGained(directChild, focusedView)\<close>.\<close>

partial_function (option) onChildFocusGained ::
  "ref \<Rightarrow> ref \<Rightarrow> ref \<Rightarrow> store \<Rightarrow> store option" where
  "onChildFocusGained this directChild focusedView s =
     (let s1 = s(this := (s this)\<lparr>lastFocusedView := Some directChild\<rparr>) in
      case parent (s1 this) of
        Some p \<Rightarrow> onChildFocusGained p this focusedView s1
      | None \<Rightarrow> Some s1)"

text \<open>
  The scan as the spec words it: the candidates are the siblings from the start index
  on in the direction of travel, and the result is the first resolution among them
  that is not null.
\<close>

fun firstResolved :: "('a \<Rightarrow> 'b option) \<Rightarrow> 'a list \<Rightarrow> 'b option" where
  "firstResolved res [] = None"
| "firstResolved res (x # xs) = (case res x of Some f \<Rightarrow> Some f | None \<Rightarrow> firstResolved res xs)"

definition scanCandidates :: "'a list \<Rightarrow> size_t \<Rightarrow> size_t \<Rightarrow> 'a list" where
  "scanCandidates cs offset start =
     (if offset = 1 then drop (unat start) cs
      else if start < size_of cs then rev (take (Suc (unat start)) cs)
      else [])"

section \<open>Threading: the task scheduler\<close>

text \<open>
  A task is a \<open>std::function<void()>\<close>.  Its body is opaque: calling it either returns,
  throws an exception derived from \<open>std::exception\<close>, or throws a value of another type;
  it does not call back into the scheduler.  The label names the task in the journal.
\<close>

datatype behaviour = Returns | ThrowsException | ThrowsOther

record task =
  label :: nat
  behaviour :: behaviour

text \<open>
  A time point of \<open>high_resolution_clock\<close> is its count of nanoseconds;
  \<open>delayMilliseconds\<close> is a \<open>long\<close>.  Both are integers; their range is not modelled.
\<close>

type_synonym time_point = int

record DelayOperation =
  startPoint :: time_point
  delayMilliseconds :: int
  func :: task
  index :: size_t

text \<open>
  What the scheduler does to the outside is kept in a journal: a call of a task from
  the sync queue, a call of a delayed task, and a message of \<open>Logger::error\<close>.
\<close>

datatype log_entry =
  SyncRan nat
  | DelayRan size_t nat
  | LoggedError nat

text \<open>
  The static members of \<open>Threading\<close>.  \<open>clock\<close> is the sequence of values that
  \<open>high_resolution_clock::now()\<close> returns, \<open>reads\<close> the number of calls made so far.
\<close>

record Threading =
  m_sync_functions :: "task list"
  m_async_tasks :: "task list"
  m_delay_tasks :: "DelayOperation list"
  m_delay_cancel_set :: "size_t set"
  m_delay_index :: size_t
  clock :: "nat \<Rightarrow> time_point"
  reads :: nat
  journal :: "log_entry list"

text \<open>An exception that leaves \<open>performSyncTasks\<close>, with the state it leaves behind.\<close>

datatype escaped = Escaped Threading

definition now :: "Threading \<Rightarrow> time_point \<times> Threading" where
  "now t = (clock t (reads t), t\<lparr>reads := Suc (reads t)\<rparr>)"

text \<open>
  \<open>duration_cast<milliseconds>(timeNow - startPoint).count()\<close>: the division rounds
  towards zero.
\<close>

definition elapsedMilliseconds :: "time_point \<Rightarrow> time_point \<Rightarrow> int" where
  "elapsedMilliseconds timeNow start =
     sgn (timeNow - start) * (\<bar>timeNow - start\<bar> div 1000000)"

definition sync :: "task \<Rightarrow> Threading \<Rightarrow> Threading" where
  "sync f t = t\<lparr>m_sync_functions := m_sync_functions t @ [f]\<rparr>"

definition async :: "task \<Rightarrow> Threading \<Rightarrow> Threading" where
  "async f t = t\<lparr>m_async_tasks := m_async_tasks t @ [f]\<rparr>"

text \<open>\<open>Threading::delay\<close>: \<open>operation.index = ++m_delay_index\<close>, and the new index is returned.\<close>

definition delay :: "int \<Rightarrow> task \<Rightarrow> Threading \<Rightarrow> size_t \<times> Threading" where
  "delay milliseconds f t =
     (let (timeNow, t1) = now t;
          operation = \<lparr>startPoint = timeNow, delayMilliseconds = milliseconds, func = f,
                       index = m_delay_index t1 + 1\<rparr>;
          t2 = t1\<lparr>m_delay_index := m_delay_index t1 + 1\<rparr>;
          t3 = t2\<lparr>m_delay_tasks := m_delay_tasks t2 @ [operation]\<rparr>
      in (m_delay_index t3, t3))"


definition record_entry :: "log_entry \<Rightarrow> Threading \<Rightarrow> Threading" where
  "record_entry e t = t\<lparr>journal := journal t @ [e]\<rparr>"

text \<open>
  \<open>try { f(); } catch (std::exception& e) { Logger::error(...); }\<close>: the handler
  catches \<open>std::exception\<close> and what derives from it, nothing else.
\<close>

definition guardedCall :: "log_entry \<Rightarrow> task \<Rightarrow> Threading \<Rightarrow> escaped + Threading" where
  "guardedCall entry f t =
     (let t1 = record_entry entry t in
      case behaviour f of
        Returns \<Rightarrow> Inr t1
      | ThrowsException \<Rightarrow> Inr (record_entry (LoggedError (label f)) t1)
      | ThrowsOther \<Rightarrow> Inl (Escaped t1))"

text \<open>\<open>for (auto& f : local)\<close>.\<close>

fun syncLoop :: "task list \<Rightarrow> Threading \<Rightarrow> escaped + Threading" where
  "syncLoop [] t = Inr t"
| "syncLoop (f # fs) t =
     (case guardedCall (SyncRan (label f)) f t of
        Inl e \<Rightarrow> Inl e
      | Inr t1 \<Rightarrow> syncLoop fs t1)"

text \<open>The body of \<open>for (auto& d : delay_local)\<close>.\<close>

definition delayStep :: "DelayOperation \<Rightarrow> Threading \<Rightarrow> escaped + Threading" where
  "delayStep d t =
     (if index d \<in> m_delay_cancel_set t then
        Inr (t\<lparr>m_delay_cancel_set := m_delay_cancel_set t - {index d}\<rparr>)
      else
        let (timeNow, t1) = now t;
            duration = elapsedMilliseconds timeNow (startPoint d)
        in
          if delayMilliseconds d \<le> duration then
            (case guardedCall (DelayRan (index d) (label (func d))) (func d) t1 of
               Inl e \<Rightarrow> Inl e
             | Inr t2 \<Rightarrow>
                 Inr (if index d \<in> m_delay_cancel_set t2
                      then t2\<lparr>m_delay_cancel_set := m_delay_cancel_set t2 - {index d}\<rparr>
                      else t2))
          else Inr (t1\<lparr>m_delay_tasks := m_delay_tasks t1 @ [d]\<rparr>))"

fun delayLoop :: "DelayOperation list \<Rightarrow> Threading \<Rightarrow> escaped + Threading" where
  "delayLoop [] t = Inr t"
| "delayLoop (d # ds) t =
     (case delayStep d t of
        Inl e \<Rightarrow> Inl e
      | Inr t1 \<Rightarrow> delayLoop ds t1)"

text \<open>\<open>Threading::performSyncTasks\<close>.\<close>

definition performSyncTasks :: "Threading \<Rightarrow> escaped + Threading" where
  "performSyncTasks t =
     (let local = m_sync_functions t;
          t1 = t\<lparr>m_sync_functions := []\<rparr>
      in case syncLoop local t1 of
           Inl e \<Rightarrow> Inl e
         | Inr t2 \<Rightarrow>
             let delay_local = m_delay_tasks t2;
                 t3 = t2\<lparr>m_delay_tasks := []\<rparr>
             in delayLoop delay_local t3)"

subsection \<open>Vocabulary of the scheduler properties\<close>

text \<open>The state a call leaves behind, whether it returned or an exception escaped.\<close>

definition outcomeState :: "escaped + Threading \<Rightarrow> Threading" where
  "outcomeState r = (case r of Inl (Escaped t) \<Rightarrow> t | Inr t \<Rightarrow> t)"



text \<open>How often the body of the delayed task with identifier \<open>i\<close> has been called.\<close>

fun ranDelayed :: "size_t \<Rightarrow> log_entry \<Rightarrow> bool" where
  "ranDelayed i (DelayRan j l) = (i = j)"
| "ranDelayed i (SyncRan l) = False"
| "ranDelayed i (LoggedError l) = False"

definition timesRun :: "size_t \<Rightarrow> Threading \<Rightarrow> nat" where
  "timesRun i t = length (filter (ranDelayed i) (journal t))"




text \<open>A task whose failures the handler of \<open>performSyncTasks\<close> catches.\<close>

definition wellBehaved :: "task \<Rightarrow> bool" where
  "wellBehaved f \<longleftrightarrow> behaviour f \<noteq> ThrowsOther"

text \<open>The journal entries of one guarded call.\<close>

definition callEntries :: "log_entry \<Rightarrow> task \<Rightarrow> log_entry list" where
  "callEntries e f = e # (if behaviour f = ThrowsException then [LoggedError (label f)] else [])"

definition syncEntries :: "task \<Rightarrow> log_entry list" where
  "syncEntries f = callEntries (SyncRan (label f)) f"

definition delayEntries :: "DelayOperation \<Rightarrow> log_entry list" where
  "delayEntries d = callEntries (DelayRan (index d) (label (func d))) (func d)"

text \<open>
  The delayed tasks that are not cancelled, in the order of the queue, each with the
  number of the clock reading taken for it.  A mark in the cancel set cancels the first
  task that carries its identifier and is used up by it.
\<close>

fun stamped :: "size_t set \<Rightarrow> nat \<Rightarrow> DelayOperation list \<Rightarrow> (DelayOperation \<times> nat) list" where
  "stamped C r [] = []"
| "stamped C r (d # ds) =
     (if index d \<in> C then stamped (C - {index d}) r ds else (d, r) # stamped C (Suc r) ds)"

text \<open>
  The test of the elapsed time against the delay at that reading, and the tasks whose
  call lets an exception out of \<open>performSyncTasks\<close>: those that are due and throw a value
  the handler does not catch.
\<close>

definition isDue :: "(nat \<Rightarrow> time_point) \<Rightarrow> DelayOperation \<times> nat \<Rightarrow> bool" where
  "isDue c p \<longleftrightarrow>
     delayMilliseconds (fst p) \<le> elapsedMilliseconds (c (snd p)) (startPoint (fst p))"

definition escapes :: "(nat \<Rightarrow> time_point) \<Rightarrow> DelayOperation \<times> nat \<Rightarrow> bool" where
  "escapes c p \<longleftrightarrow> isDue c p \<and> \<not> wellBehaved (func (fst p))"

section \<open>Example states\<close>

definition blankView :: view where
  "blankView = \<lparr>isBox = False, focusable = False, detached = False, parent = None,
     parentUserData = None, knownAttributes = [], children = [], ygChildren = [],
     layoutDirty = False, axis = ROW, lastFocusedView = None, defaultFocusedIndex = 0,
     forwardedAttributes = Map.empty\<rparr>"

definition emptyBox :: view where
  "emptyBox = blankView\<lparr>isBox := True\<rparr>"

text \<open>An empty Box at address 0; every other address holds a plain view.\<close>

definition oneBox :: ui where
  "oneBox = \<lparr>views = (\<lambda>_. blankView)(0 := emptyBox), events = []\<rparr>"

text \<open>The Box at address 0 holding the views 1 and 2, as two calls of \<open>addView\<close> leave it.\<close>

definition twoChildren :: ui where
  "twoChildren =
     \<lparr>views = (\<lambda>_. blankView)
        (0 := emptyBox\<lparr>children := [1, 2], ygChildren := [1, 2], layoutDirty := True\<rparr>,
         1 := blankView\<lparr>parent := Some 0, parentUserData := Some 0\<rparr>,
         2 := blankView\<lparr>parent := Some 0, parentUserData := Some 1\<rparr>),
      events = [WillAppear 1, WillAppear 2]\<rparr>"



text \<open>The same Box when view 1 offers the attribute \<open>text\<close>.\<close>

definition withText :: store where
  "withText = (views twoChildren)(1 := (views twoChildren 1)\<lparr>knownAttributes := [''text'']\<rparr>)"

text \<open>A ROW Box at address 0 with three children; the middle one is not focusable.\<close>

definition rowOfThree :: store where
  "rowOfThree = (\<lambda>_. blankView)
     (0 := emptyBox\<lparr>axis := ROW, children := [1, 2, 3], ygChildren := [1, 2, 3]\<rparr>,
      1 := blankView\<lparr>focusable := True, parent := Some 0, parentUserData := Some 0\<rparr>,
      2 := blankView\<lparr>parent := Some 0, parentUserData := Some 1\<rparr>,
      3 := blankView\<lparr>focusable := True, parent := Some 0, parentUserData := Some 2\<rparr>)"

text \<open>The same row as the only child of a COLUMN Box at address 10.\<close>

definition nestedRow :: store where
  "nestedRow = rowOfThree
     (0 := (rowOfThree 0)\<lparr>parent := Some 10, parentUserData := Some 0\<rparr>,
      10 := emptyBox\<lparr>axis := COLUMN, children := [0], ygChildren := [0]\<rparr>)"

text \<open>A Box at address 0 with two focusable children.\<close>

definition twoFocusable :: store where
  "twoFocusable = (\<lambda>_. blankView)
     (0 := emptyBox\<lparr>children := [1, 2], ygChildren := [1, 2]\<rparr>,
      1 := blankView\<lparr>focusable := True, parent := Some 0, parentUserData := Some 0\<rparr>,
      2 := blankView\<lparr>focusable := True, parent := Some 0, parentUserData := Some 1\<rparr>)"

text \<open>
  A scheduler with nothing queued.  Its clock reads 0 first, then 50 ms, then 150 ms
  from the third reading on.
\<close>

definition idle :: Threading where
  "idle = \<lparr>m_sync_functions = [], m_async_tasks = [], m_delay_tasks = [],
     m_delay_cancel_set = {}, m_delay_index = 0,
     clock = (\<lambda>n. if n = 0 then 0 else if n = 1 then 50000000 else 150000000),
     reads = 0, journal = []\<rparr>"

definition taskF :: task where
  "taskF = \<lparr>label = 7, behaviour = Returns\<rparr>"

definition taskG :: task where
  "taskG = \<lparr>label = 8, behaviour = ThrowsOther\<rparr>"

text \<open>\<open>delay(100, f)\<close> at time 0: the operation it queues and the state it leaves.\<close>

definition operationF :: DelayOperation where
  "operationF = \<lparr>startPoint = 0, delayMilliseconds = 100, func = taskF, index = 1\<rparr>"

definition queued :: Threading where
  "queued = snd (delay 100 taskF idle)"

text \<open>The states after the tick at 50 ms and after the tick at 150 ms.\<close>

definition requeued :: Threading where
  "requeued = outcomeState (performSyncTasks queued)"


section \<open>Properties of child management\<close>

lemma findView_None_iff: "findView v cs = None \<longleftrightarrow> v \<notin> set cs"
  by (induction cs) auto

lemma fold_bumpIndex_children: "children (fold bumpIndex xs s r) = children (s r)"
  by (induction xs arbitrary: s) (auto simp: bumpIndex_def)

lemma fold_bumpIndex_ygChildren: "ygChildren (fold bumpIndex xs s r) = ygChildren (s r)"
  by (induction xs arbitrary: s) (auto simp: bumpIndex_def)

lemma unat_size_of_le: "unat (size_of xs) \<le> length xs"
  by (simp add: size_of_def unat_of_nat)



lemma addView_in_range:
  assumes "position \<le> size_of (children (views u this))"
  shows "\<exists>u'. addView this v position u = Inr u'
     \<and> children (views u' this) = insert_at (unat position) v (children (views u this))
     \<and> ygChildren (views u' this) =
         (if detached (views u v) then ygChildren (views u this)
          else insert_at (unat position) v (ygChildren (views u this)))"
  using assms
  by (auto simp: addView_def Let_def restamp_def invalidate_def setParent_def
      YGNodeInsertChild_def not_less fold_bumpIndex_children fold_bumpIndex_ygChildren)




text \<open>
  Claim C7.  \<open>removeView(view, free)\<close> on a Box whose child sequence does not hold \<open>view\<close>
  (a null \<open>view\<close> included) returns the state it was given: the child sequence, the
  LayoutNode tree, the layout-dirty flag and the list of hook and destruction events
  are all unchanged.
\<close>

theorem removeView_absent_noop:
  assumes "\<forall>v. view = Some v \<longrightarrow> v \<notin> set (children (views u this))"
  shows "removeView this view free u = u
    \<and> children (views (removeView this view free u) this) = children (views u this)
    \<and> ygChildren (views (removeView this view free u) this) = ygChildren (views u this)
    \<and> layoutDirty (views (removeView this view free u) this) = layoutDirty (views u this)
    \<and> events (removeView this view free u) = events u"
proof -
  have "removeView this view free u = u"
  proof (cases view)
    case None
    then show ?thesis by (simp add: removeView_def)
  next
    case (Some v)
    with assms have "findView v (children (views u this)) = None"
      by (simp add: findView_None_iff)
    with Some show ?thesis by (simp add: removeView_def)
  qed
  then show ?thesis by simp
qed

theorem removeView_absent_noop_witness:
  "removeView 0 (Some 3) True twoChildren = twoChildren
   \<and> removeView 0 None True twoChildren = twoChildren"
proof -
  have "\<forall>v. Some (3::ref) = Some v \<longrightarrow> v \<notin> set (children (views twoChildren 0))"
    by (simp add: twoChildren_def emptyBox_def blankView_def)
  then have "removeView 0 (Some 3) True twoChildren = twoChildren"
    using removeView_absent_noop [of "Some 3" twoChildren 0 True] by blast
  moreover have "removeView 0 None True twoChildren = twoChildren"
    using removeView_absent_noop [of None twoChildren 0 True] by blast
  ultimately show ?thesis by simp
qed

lemma fold_bumpIndex_userdata:
  "distinct xs \<Longrightarrow>
     parentUserData (fold bumpIndex xs s r)
       = (if r \<in> set xs then map_option (\<lambda>i. i + 1) (parentUserData (s r))
          else parentUserData (s r))"
proof (induction xs arbitrary: s)
  case Nil
  then show ?case by simp
next
  case (Cons x xs)
  then show ?case by (auto simp: bumpIndex_def)
qed

text \<open>
  \<open>addView\<close> keeps the invariant of the index cache when it inserts a view that the
  Box does not hold yet: this is the work of its re-stamping loop.
\<close>

lemma addView_keeps_index_cache:
  assumes inv: "indexCached (views u) this"
    and dist: "distinct (children (views u this))"
    and fresh: "v \<notin> set (children (views u this))"
    and ok: "addView this v position u = Inr u'"
  shows "indexCached (views u') this"
proof -
  let ?s = "views u" and ?cs = "children (views u this)" and ?p = "unat position"
  let ?g = "\<lambda>i::nat. Some (of_nat i :: size_t)"
  from ok have le: "position \<le> size_of ?cs"
    by (auto simp: addView_def Let_def not_less split: if_splits)
  then have "?p \<le> unat (size_of ?cs)" by (simp add: word_le_nat_alt)
  then have p: "?p \<le> length ?cs" using unat_size_of_le [of ?cs] by simp
  have cs': "children (views u' this) = take ?p ?cs @ v # drop ?p ?cs"
    using addView_in_range [OF le, of v] ok by (auto simp: insert_at_def)
  have dr: "drop (?p + 1) (take ?p ?cs @ v # drop ?p ?cs) = drop ?p ?cs"
    using p by simp
  have dd: "distinct (drop ?p ?cs)" using dist by simp
  define s1 where "s1 = ?s(this := (?s this)\<lparr>children := insert_at ?p v ?cs\<rparr>)"
  define s2 where "s2 = (if \<not> detached (s1 v) then YGNodeInsertChild this v position s1 else s1)"
  define s3 where "s3 = setParent v (Some this) (Some position) s2"
  have u': "views u' = invalidate this (restamp this position s3)"
    using ok le by (auto simp: addView_def Let_def not_less s1_def s2_def s3_def split: if_splits)
  have c3: "children (s3 this) = take ?p ?cs @ v # drop ?p ?cs"
    by (simp add: s3_def s2_def s1_def setParent_def YGNodeInsertChild_def insert_at_def)
  have p3: "parentUserData (s3 c) = (if c = v then Some position else parentUserData (?s c))" for c
    by (simp add: s3_def s2_def s1_def setParent_def YGNodeInsertChild_def)
  have ud: "parentUserData (views u' c)
      = (if c \<in> set (drop ?p ?cs)
         then map_option (\<lambda>i. i + 1) (if c = v then Some position else parentUserData (?s c))
         else (if c = v then Some position else parentUserData (?s c)))" for c
  proof -
    have "parentUserData (views u' c) = parentUserData (restamp this position s3 c)"
      by (simp add: u' invalidate_def)
    also have "\<dots> = parentUserData (fold bumpIndex (drop ?p ?cs) s3 c)"
      by (simp only: restamp_def c3 dr)
    also have "\<dots> = (if c \<in> set (drop ?p ?cs) then map_option (\<lambda>i. i + 1) (parentUserData (s3 c))
          else parentUserData (s3 c))"
      using dd by (rule fold_bumpIndex_userdata)
    finally show ?thesis by (simp only: p3)
  qed
  have nv: "v \<notin> set (drop ?p ?cs)" "v \<notin> set (take ?p ?cs)"
    using fresh by (auto dest: in_set_dropD in_set_takeD)
  have disj: "set (take ?p ?cs) \<inter> set (drop ?p ?cs) = {}"
    using dist by (metis append_take_drop_id distinct_append)
  from inv have m: "map (\<lambda>c. parentUserData (?s c)) ?cs = map ?g [0 ..< length ?cs]"
    by (simp add: indexCached_def)
  have low: "map (\<lambda>c. parentUserData (?s c)) (take ?p ?cs) = map ?g [0 ..< ?p]"
    using arg_cong [OF m, of "take ?p"] p by (simp add: take_map take_upt)
  have high: "map (\<lambda>c. parentUserData (?s c)) (drop ?p ?cs) = map ?g [?p ..< length ?cs]"
    using arg_cong [OF m, of "drop ?p"] by (simp add: drop_map drop_upt)
  have a: "map (\<lambda>c. parentUserData (views u' c)) (take ?p ?cs) = map ?g [0 ..< ?p]"
  proof -
    have "map (\<lambda>c. parentUserData (views u' c)) (take ?p ?cs)
            = map (\<lambda>c. parentUserData (?s c)) (take ?p ?cs)"
      using disj nv by (intro map_cong refl) (auto simp: ud)
    then show ?thesis using low by simp
  qed
  have b: "parentUserData (views u' v) = ?g ?p" using nv by (simp add: ud)
  have c: "map (\<lambda>c. parentUserData (views u' c)) (drop ?p ?cs) = map ?g [Suc ?p ..< Suc (length ?cs)]"
  proof -
    have "map (\<lambda>c. parentUserData (views u' c)) (drop ?p ?cs)
            = map (\<lambda>c. map_option (\<lambda>i. i + 1) (parentUserData (?s c))) (drop ?p ?cs)"
      using nv by (intro map_cong refl) (auto simp: ud)
    also have "\<dots> = map (map_option (\<lambda>i. i + 1)) (map (\<lambda>c. parentUserData (?s c)) (drop ?p ?cs))"
      by simp
    also have "\<dots> = map (\<lambda>i. ?g (Suc i)) [?p ..< length ?cs]"
      by (simp add: high)
    also have "\<dots> = map ?g [Suc ?p ..< Suc (length ?cs)]"
      by (simp only: map_Suc_upt [symmetric] map_map o_def)
    finally show ?thesis .
  qed
  have parts: "[0 ..< Suc (length ?cs)] = [0 ..< ?p] @ ?p # [Suc ?p ..< Suc (length ?cs)]"
  proof -
    have "[0 ..< Suc (length ?cs)] = [0 ..< ?p] @ [?p ..< Suc (length ?cs)]"
      using p upt_add_eq_append [of 0 ?p "Suc (length ?cs) - ?p"] by simp
    moreover have "[?p ..< Suc (length ?cs)] = ?p # [Suc ?p ..< Suc (length ?cs)]"
      using p by (subst upt_conv_Cons) simp_all
    ultimately show ?thesis by simp
  qed
  have len: "length (take ?p ?cs @ v # drop ?p ?cs) = Suc (length ?cs)" using p by simp
  have "map (\<lambda>c. parentUserData (views u' c)) (take ?p ?cs @ v # drop ?p ?cs)
          = map ?g [0 ..< ?p] @ ?g ?p # map ?g [Suc ?p ..< Suc (length ?cs)]"
    by (simp only: map_append list.map a b c)
  also have "\<dots> = map ?g ([0 ..< ?p] @ ?p # [Suc ?p ..< Suc (length ?cs)])"
    by (simp only: map_append list.map)
  also have "\<dots> = map ?g [0 ..< Suc (length ?cs)]"
    by (simp only: parts [symmetric])
  finally show ?thesis
    unfolding indexCached_def cs' len .
qed

text \<open>
  Claim C1, evaluated where it fails.  Two views are added to an empty Box and the first
  one is removed again.  After the two insertions every cached index is the position
  of its child.  After the removal the child sequence is the insertion order minus the
  removal, but the remaining child keeps the cached index 1 although its position is 0:
  \<open>removeView\<close> has no counterpart of the re-stamping loop of \<open>addView\<close>.
\<close>

theorem removeView_keeps_stale_index:
  "(case addViewLast 0 1 oneBox of
      Inl e \<Rightarrow> False
    | Inr u1 \<Rightarrow>
        (case addViewLast 0 2 u1 of
           Inl e \<Rightarrow> False
         | Inr u2 \<Rightarrow>
             u2 = twoChildren
             \<and> indexCached (views u2) 0
             \<and> children (views (removeView 0 (Some 1) False u2) 0) = [2]
             \<and> findView 2 (children (views (removeView 0 (Some 1) False u2) 0)) = Some 0
             \<and> parentUserData (views (removeView 0 (Some 1) False u2) 2) = Some 1
             \<and> \<not> indexCached (views (removeView 0 (Some 1) False u2)) 0))"
  by (simp add: addViewLast_def addView_def YGNodeGetChildCount_def size_of_def oneBox_def
      twoChildren_def emptyBox_def blankView_def insert_at_def erase_at_def YGNodeInsertChild_def
      YGNodeRemoveChild_def setParent_def restamp_def bumpIndex_def invalidate_def removeView_def
      indexCached_def Let_def fun_eq_iff)

lemma uint_scast_int:
  "0 \<le> sint (idx :: 32 word) \<Longrightarrow> uint (scast idx :: size_t) = sint idx"
proof -
  assume nonneg: "0 \<le> sint idx"
  have b: "sint idx < 2 ^ 31" using sint_lt [of idx] by simp
  have "sint idx < 2 ^ 64" by (rule less_trans [OF b]) simp
  with nonneg have "sint idx mod 2 ^ 64 = sint idx" by simp
  moreover have "uint (scast idx :: size_t) = sint idx mod 2 ^ 64"
    unfolding scast_eq [of idx] by (simp only: uint_word_of_int) simp
  ultimately show ?thesis by simp
qed

text \<open>
  Claim C10.  \<open>setDefaultFocusedIndex(index)\<close> with a negative \<open>index\<close> returns the store
  unchanged, so \<open>defaultFocusedIndex\<close> keeps its value and nothing is reported; with a
  non-negative \<open>index\<close> the stored value is that index.
\<close>

theorem setDefaultFocusedIndex_negative_noop:
  "(sint idx < 0 \<longrightarrow> setDefaultFocusedIndex this idx s = s)
   \<and> (0 \<le> sint idx \<longrightarrow>
        uint (defaultFocusedIndex (setDefaultFocusedIndex this idx s this)) = sint idx)
   \<and> (defaultFocusedIndex (setDefaultFocusedIndex this idx s this) \<noteq> defaultFocusedIndex (s this)
        \<longrightarrow> 0 \<le> sint idx)"
  by (simp add: setDefaultFocusedIndex_def uint_scast_int)

theorem setDefaultFocusedIndex_negative_noop_witness:
  "setDefaultFocusedIndex 0 (- 1) (views twoChildren) = views twoChildren
   \<and> uint (defaultFocusedIndex (setDefaultFocusedIndex 0 1 (views twoChildren) 0)) = 1"
proof -
  have "sint (- 1 :: 32 word) < 0" and "0 \<le> sint (1 :: 32 word)" by simp_all
  then show ?thesis
    using setDefaultFocusedIndex_negative_noop [of "- 1" 0 "views twoChildren"]
      setDefaultFocusedIndex_negative_noop [of 1 0 "views twoChildren"]
    by simp
qed

section \<open>Properties of attribute forwarding\<close>

lemma applyXMLAttribute_local:
  "\<not> isBox (s v) \<or> forwardedAttributes (s v) name = None \<Longrightarrow>
     applyXMLAttribute s v name val = Some (ViewApply v name val)"
  by (subst applyXMLAttribute.simps) auto

lemma applyXMLAttribute_forwarded:
  "isBox (s v) \<Longrightarrow> forwardedAttributes (s v) name = Some (targetName, target) \<Longrightarrow>
     applyXMLAttribute s v name val = applyXMLAttribute s target targetName val"
  by (subst applyXMLAttribute.simps) simp

text \<open>
  Claim C8.  \<open>forwardXMLAttribute(name, target, targetName)\<close> is fatal, as the call
  itself, when \<open>targetName\<close> is not a valid attribute of \<open>target\<close> or when \<open>name\<close> is
  already forwarded by this Box.  While \<open>name\<close> is not forwarded, applying it on the Box
  is handled locally: it is the call of \<open>View::applyXMLAttribute(name, value)\<close> on the
  Box.  A successful registration changes the forwarding table of the Box at \<open>name\<close> and
  nothing else; from then on \<open>applyXMLAttribute(name, value)\<close> on the Box is the call
  \<open>applyXMLAttribute(targetName, value)\<close> on \<open>target\<close>; when \<open>target\<close> does not forward
  \<open>targetName\<close> itself (it is a plain view, or a Box without that entry), this is the call
  of \<open>View::applyXMLAttribute(targetName, value)\<close> on \<open>target\<close>, and not the local
  handling of \<open>name\<close> on the Box.
\<close>

theorem forwardXMLAttribute_registers:
  "(\<not> isXMLAttributeValid target targetName s \<or> name \<in> dom (forwardedAttributes (s this))
      \<longrightarrow> (\<exists>r. forwardXMLAttribute this name target targetName s = Inl (Fatal r)))
   \<and> (isBox (s this) \<and> name \<notin> dom (forwardedAttributes (s this))
      \<longrightarrow> applyXMLAttribute s this name val = Some (ViewApply this name val))
   \<and> (isXMLAttributeValid target targetName s \<and> name \<notin> dom (forwardedAttributes (s this))
      \<longrightarrow> (\<exists>s'. forwardXMLAttribute this name target targetName s = Inr s'
            \<and> s' = s(this := (s this)\<lparr>forwardedAttributes :=
                        (forwardedAttributes (s this))(name \<mapsto> (targetName, target))\<rparr>)
            \<and> forwardedAttributes (s' this) name = Some (targetName, target)
            \<and> (isBox (s this) \<longrightarrow>
                 applyXMLAttribute s' this name val = applyXMLAttribute s' target targetName val)
            \<and> (isBox (s this)
                 \<and> (\<not> isBox (s' target) \<or> forwardedAttributes (s' target) targetName = None)
                 \<longrightarrow> applyXMLAttribute s' this name val = Some (ViewApply target targetName val)
                     \<and> (target \<noteq> this \<or> targetName \<noteq> name
                          \<longrightarrow> applyXMLAttribute s' this name val \<noteq> Some (ViewApply this name val)))))"
proof (intro conjI impI)
  assume "\<not> isXMLAttributeValid target targetName s \<or> name \<in> dom (forwardedAttributes (s this))"
  then show "\<exists>r. forwardXMLAttribute this name target targetName s = Inl (Fatal r)"
    by (auto simp: forwardXMLAttribute_def)
next
  assume "isBox (s this) \<and> name \<notin> dom (forwardedAttributes (s this))"
  then have "forwardedAttributes (s this) name = None"
    by (cases "forwardedAttributes (s this) name") (auto simp: dom_def)
  then show "applyXMLAttribute s this name val = Some (ViewApply this name val)"
    by (simp add: applyXMLAttribute_local)
next
  let ?s' = "s(this := (s this)\<lparr>forwardedAttributes :=
                  (forwardedAttributes (s this))(name \<mapsto> (targetName, target))\<rparr>)"
  assume ok: "isXMLAttributeValid target targetName s \<and> name \<notin> dom (forwardedAttributes (s this))"
  then have reg: "forwardXMLAttribute this name target targetName s = Inr ?s'"
    by (simp add: forwardXMLAttribute_def)
  have tab: "forwardedAttributes (?s' this) name = Some (targetName, target)" by simp
  have use: "applyXMLAttribute ?s' this name val = applyXMLAttribute ?s' target targetName val"
    if "isBox (s this)"
    using that tab by (intro applyXMLAttribute_forwarded) simp_all
  have plain: "applyXMLAttribute ?s' this name val = Some (ViewApply target targetName val)"
    if "isBox (s this)" "\<not> isBox (?s' target) \<or> forwardedAttributes (?s' target) targetName = None"
    using use [OF that(1)] that(2)
      applyXMLAttribute_local [of ?s' target targetName val] by simp
  have other: "applyXMLAttribute ?s' this name val \<noteq> Some (ViewApply this name val)"
    if "isBox (s this)" "\<not> isBox (?s' target) \<or> forwardedAttributes (?s' target) targetName = None"
       "target \<noteq> this \<or> targetName \<noteq> name"
    using plain [OF that(1,2)] that(3) by auto
  show "\<exists>s'. forwardXMLAttribute this name target targetName s = Inr s'
            \<and> s' = s(this := (s this)\<lparr>forwardedAttributes :=
                        (forwardedAttributes (s this))(name \<mapsto> (targetName, target))\<rparr>)
            \<and> forwardedAttributes (s' this) name = Some (targetName, target)
            \<and> (isBox (s this) \<longrightarrow>
                 applyXMLAttribute s' this name val = applyXMLAttribute s' target targetName val)
            \<and> (isBox (s this)
                 \<and> (\<not> isBox (s' target) \<or> forwardedAttributes (s' target) targetName = None)
                 \<longrightarrow> applyXMLAttribute s' this name val = Some (ViewApply target targetName val)
                     \<and> (target \<noteq> this \<or> targetName \<noteq> name
                          \<longrightarrow> applyXMLAttribute s' this name val \<noteq> Some (ViewApply this name val)))"
    using reg tab use plain other by (intro exI [of _ ?s']) blast
qed

text \<open>
  The scenario of the spec: forwarding \<open>title\<close> to an attribute that view 1 does not
  have is fatal when it is registered.  Before the registration, applying \<open>title\<close> on
  the Box is handled by the Box.  Forwarding it to \<open>text\<close> succeeds; a second
  registration of \<open>title\<close> is then fatal, and applying \<open>title\<close> on the Box applies \<open>text\<close>
  on view 1 with the same value.
\<close>

theorem forwardXMLAttribute_registers_witness:
  "forwardXMLAttribute 0 ''title'' 1 ''missing'' withText = Inl (Fatal InvalidForwardTarget)
   \<and> applyXMLAttribute withText 0 ''title'' ''hello'' = Some (ViewApply 0 ''title'' ''hello'')
   \<and> (\<exists>s'. forwardXMLAttribute 0 ''title'' 1 ''text'' withText = Inr s'
         \<and> applyXMLAttribute s' 0 ''title'' ''hello'' = Some (ViewApply 1 ''text'' ''hello'')
         \<and> applyXMLAttribute s' 0 ''title'' ''hello'' \<noteq> Some (ViewApply 0 ''title'' ''hello'')
         \<and> forwardXMLAttribute 0 ''title'' 1 ''text'' s' = Inl (Fatal ForwardedTwice))"
proof -
  note th = forwardXMLAttribute_registers [of 1 "''text''" withText "''title''" 0 "''hello''"]
  have v: "isXMLAttributeValid 1 ''text'' withText" "\<not> isXMLAttributeValid 1 ''missing'' withText"
      "''title'' \<notin> dom (forwardedAttributes (withText 0))" "isBox (withText 0)"
      "\<not> isBox (withText 1)"
    by (simp_all add: withText_def twoChildren_def emptyBox_def blankView_def isXMLAttributeValid_def)
  have before: "applyXMLAttribute withText 0 ''title'' ''hello'' = Some (ViewApply 0 ''title'' ''hello'')"
    using th [THEN conjunct2, THEN conjunct1, THEN mp, OF conjI [OF v(4) v(3)]] .
  from th [THEN conjunct2, THEN conjunct2, THEN mp, OF conjI [OF v(1) v(3)]]
  obtain s' where all: "forwardXMLAttribute 0 ''title'' 1 ''text'' withText = Inr s'
      \<and> s' = withText(0 := (withText 0)\<lparr>forwardedAttributes :=
              (forwardedAttributes (withText 0))(''title'' \<mapsto> (''text'', 1))\<rparr>)
      \<and> forwardedAttributes (s' 0) ''title'' = Some (''text'', 1)
      \<and> (isBox (withText 0) \<longrightarrow>
           applyXMLAttribute s' 0 ''title'' ''hello'' = applyXMLAttribute s' 1 ''text'' ''hello'')
      \<and> (isBox (withText 0) \<and> (\<not> isBox (s' 1) \<or> forwardedAttributes (s' 1) ''text'' = None)
         \<longrightarrow> applyXMLAttribute s' 0 ''title'' ''hello'' = Some (ViewApply 1 ''text'' ''hello'')
             \<and> ((1::ref) \<noteq> 0 \<or> ''text'' \<noteq> ''title''
                  \<longrightarrow> applyXMLAttribute s' 0 ''title'' ''hello'' \<noteq> Some (ViewApply 0 ''title'' ''hello'')))" ..
  note s' = all [THEN conjunct1] all [THEN conjunct2, THEN conjunct1]
    all [THEN conjunct2, THEN conjunct2, THEN conjunct1]
    all [THEN conjunct2, THEN conjunct2, THEN conjunct2, THEN conjunct2]
  have leaf: "\<not> isBox (s' 1)" "isXMLAttributeValid 1 ''text'' s'"
    using v(1,5) by (simp_all add: s'(2) isXMLAttributeValid_def)
  have after: "applyXMLAttribute s' 0 ''title'' ''hello'' = Some (ViewApply 1 ''text'' ''hello'')"
      "applyXMLAttribute s' 0 ''title'' ''hello'' \<noteq> Some (ViewApply 0 ''title'' ''hello'')"
    using s'(4) v(4) leaf(1) by simp_all
  have twice: "forwardXMLAttribute 0 ''title'' 1 ''text'' s' = Inl (Fatal ForwardedTwice)"
    using leaf(2) s'(3) by (simp add: forwardXMLAttribute_def dom_def)
  have missing: "forwardXMLAttribute 0 ''title'' 1 ''missing'' withText = Inl (Fatal InvalidForwardTarget)"
    using v(2) by (simp add: forwardXMLAttribute_def)
  show ?thesis using missing before s'(1) after twice by blast
qed

section \<open>Properties of focus resolution\<close>

lemma unat_size_of: "length xs < 2 ^ 64 \<Longrightarrow> unat (size_of xs) = length xs"
  by (simp add: size_of_def unat_of_nat)

lemma less_size_of: "i < size_of xs \<Longrightarrow> unat i < length xs"
  using unat_size_of_le [of xs] by (simp add: word_less_nat_alt)

lemma unat_succ: "i < (n :: size_t) \<Longrightarrow> unat (i + 1) = Suc (unat i)"
proof -
  assume "i < n"
  then have "unat i < unat n" by (simp add: word_less_nat_alt)
  moreover have "unat n < 2 ^ 64" using unsigned_less [of n, where ?'a = nat] by simp
  ultimately have "unat i + 1 < 2 ^ 64" by simp
  then show ?thesis by (simp add: unat_word_ariths)
qed

lemma scan_forward:
  assumes len: "length cs < 2 ^ 64"
    and res: "\<forall>c\<in>set cs. getDefaultFocus s c = Some (res c)"
  shows "scanLoop s cs 1 i = Some (firstResolved res (drop (unat i) cs))"
proof (induction "length cs - unat i" arbitrary: i)
  case 0
  then have "\<not> i < size_of cs" using less_size_of [of i cs] by auto
  moreover have "drop (unat i) cs = []" using 0 by simp
  ultimately show ?case by (subst scanLoop.simps) simp
next
  case (Suc n)
  then have lt: "unat i < length cs" by simp
  then have guard: "i < size_of cs" using len by (simp add: word_less_nat_alt unat_size_of)
  have step: "unat (i + 1) = Suc (unat i)" using guard by (rule unat_succ)
  have dr: "drop (unat i) cs = cs ! unat i # drop (Suc (unat i)) cs"
    using lt by (simp add: Cons_nth_drop_Suc)
  have r: "getDefaultFocus s (cs ! unat i) = Some (res (cs ! unat i))"
    using res lt by simp
  have ih: "scanLoop s cs 1 (i + 1) = Some (firstResolved res (drop (Suc (unat i)) cs))"
    using Suc.hyps(1) [of "i + 1"] Suc.hyps(2) step by simp
  show ?case
    by (subst scanLoop.simps) (auto simp: guard r dr ih split: option.splits)
qed

lemma unat_pred: "i \<noteq> (0 :: size_t) \<Longrightarrow> unat (i - 1) = unat i - 1"
  by (simp add: unat_minus_one)

lemma minus_one_not_less: "\<not> (- 1 :: size_t) < n"
  by (simp add: word_order.extremum_strict)

lemma scan_backward:
  assumes res: "\<forall>c\<in>set cs. getDefaultFocus s c = Some (res c)"
  shows "scanLoop s cs (- 1) i =
           Some (if i < size_of cs then firstResolved res (rev (take (Suc (unat i)) cs)) else None)"
proof (induction "unat i" arbitrary: i)
  case 0
  then have i0: "i = 0" by (simp add: unat_eq_0)
  show ?case
  proof (cases "i < size_of cs")
    case False
    then show ?thesis by (subst scanLoop.simps) simp
  next
    case True
    then have lt: "0 < length cs" using less_size_of [of i cs] i0 by simp
    then have r: "getDefaultFocus s (cs ! 0) = Some (res (cs ! 0))" using res by simp
    have tk: "take (Suc 0) cs = [cs ! 0]" using lt by (cases cs) auto
    have nxt: "scanLoop s cs (- 1) (- 1) = Some None"
      by (subst scanLoop.simps) (simp add: minus_one_not_less)
    show ?thesis using True i0
      by (subst scanLoop.simps) (auto simp: r tk nxt split: option.splits)
  qed
next
  case (Suc n)
  then have ne: "i \<noteq> 0" by auto
  have pred: "unat (i - 1) = n" using Suc.hyps(2) ne by (simp add: unat_pred)
  show ?case
  proof (cases "i < size_of cs")
    case False
    then show ?thesis by (subst scanLoop.simps) simp
  next
    case True
    then have lt: "unat i < length cs" by (rule less_size_of)
    have r: "getDefaultFocus s (cs ! unat i) = Some (res (cs ! unat i))" using res lt by simp
    have lt': "i - 1 < size_of cs"
    proof -
      have "unat i < unat (size_of cs)" using True by (simp add: word_less_nat_alt)
      then have "unat (i - 1) < unat (size_of cs)" using pred Suc.hyps(2) by simp
      then show ?thesis by (simp add: word_less_nat_alt)
    qed
    have tk: "take (Suc (unat i)) cs = take (unat i) cs @ [cs ! unat i]"
      using lt by (simp add: take_Suc_conv_app_nth)
    have ih: "scanLoop s cs (- 1) (i - 1) = Some (firstResolved res (rev (take (unat i) cs)))"
      using Suc.hyps(1) [of "i - 1"] pred lt' Suc.hyps(2) by simp
    show ?thesis using True
      by (subst scanLoop.simps) (auto simp: r tk ih split: option.splits)
  qed
qed

lemma scan_terminates_forward:
  assumes ret: "\<forall>c\<in>set cs. getDefaultFocus s c \<noteq> None"
  shows "\<exists>r. scanLoop s cs 1 i = Some r"
proof (induction "unat (size_of cs) - unat i" arbitrary: i)
  case 0
  then have "\<not> i < size_of cs" by (simp add: word_less_nat_alt)
  then show ?case by (subst scanLoop.simps) simp
next
  case (Suc n)
  then have guard: "i < size_of cs" by (simp add: word_less_nat_alt)
  then have lt: "unat i < length cs" by (rule less_size_of)
  have step: "unat (i + 1) = Suc (unat i)" using guard by (rule unat_succ)
  obtain r where r: "getDefaultFocus s (cs ! unat i) = Some r"
    using ret lt by (metis not_None_eq nth_mem)
  have "n = unat (size_of cs) - unat (i + 1)" using Suc.hyps(2) step by arith
  then obtain r' where ih: "scanLoop s cs 1 (i + 1) = Some r'"
    using Suc.hyps(1) [of "i + 1"] by auto
  show ?case
    by (subst scanLoop.simps) (simp add: guard r ih)
qed

lemma scan_terminates_backward:
  assumes ret: "\<forall>c\<in>set cs. getDefaultFocus s c \<noteq> None"
  shows "\<exists>r. scanLoop s cs (- 1) i = Some r"
proof (induction "unat i" arbitrary: i)
  case 0
  then have i0: "i = 0" by (simp add: unat_eq_0)
  have nxt: "scanLoop s cs (- 1) (- 1) = Some None"
    by (subst scanLoop.simps) (simp add: minus_one_not_less)
  show ?case
  proof (cases "i < size_of cs")
    case False
    then show ?thesis by (subst scanLoop.simps) simp
  next
    case True
    then have "unat i < length cs" by (rule less_size_of)
    then obtain r where "getDefaultFocus s (cs ! unat i) = Some r"
      using ret by (metis not_None_eq nth_mem)
    then show ?thesis using True i0 nxt
      by (subst scanLoop.simps) simp
  qed
next
  case (Suc n)
  then have ne: "i \<noteq> 0" by auto
  have pred: "unat (i - 1) = n" using Suc.hyps(2) ne by (simp add: unat_pred)
  obtain r' where ih: "scanLoop s cs (- 1) (i - 1) = Some r'"
    using Suc.hyps(1) [of "i - 1"] pred by auto
  show ?case
  proof (cases "i < size_of cs")
    case False
    then show ?thesis by (subst scanLoop.simps) simp
  next
    case True
    then have "unat i < length cs" by (rule less_size_of)
    then obtain r where "getDefaultFocus s (cs ! unat i) = Some r"
      using ret by (metis not_None_eq nth_mem)
    then show ?thesis using True ih
      by (subst scanLoop.simps) simp
  qed
qed

lemma scanOffset_cases: "scanOffset a d = 1 \<or> scanOffset a d = - 1"
  by (simp add: scanOffset_def)

lemma defaultFocus_focusable:
  assumes "defaultFocus s c = Some r"
  shows "\<forall>f. r = Some f \<longrightarrow> focusable (s f)"
proof (rule defaultFocus.raw_induct
    [where P = "\<lambda>s c r. \<forall>f. r = Some f \<longrightarrow> focusable (s f)", OF _ assms], goal_cases)
  case (1 df s c r)
  show ?case
  proof (cases c)
    case (Resolve this)
    with 1 show ?thesis
      by (auto simp: View_getDefaultFocus_def split: if_splits option.splits bind_splits)
  next
    case (FirstOf xs)
    with 1 show ?thesis
      by (cases xs) (auto split: if_splits option.splits bind_splits)
  qed
qed

lemma getDefaultFocus_focusable:
  "getDefaultFocus s v = Some (Some f) \<Longrightarrow> focusable (s f)"
  unfolding getDefaultFocus_def using defaultFocus_focusable by blast

lemma getDefaultFocus_of_focusable:
  "focusable (s f) \<Longrightarrow> getDefaultFocus s f = Some (Some f)"
  unfolding getDefaultFocus_def
  by (subst defaultFocus.simps) (simp add: View_getDefaultFocus_def)

lemma scanLoop_focusable:
  assumes "scanLoop s cs offset i = Some r"
  shows "\<forall>f. r = Some f \<longrightarrow> focusable (s f)"
proof (rule scanLoop.raw_induct
    [where P = "\<lambda>s cs offset i r. \<forall>f. r = Some f \<longrightarrow> focusable (s f)", OF _ assms], goal_cases)
  case (1 sl s cs offset i r)
  then show ?case
    by (auto split: if_splits bind_splits dest: getDefaultFocus_focusable)
qed

lemma getParentNavigationDecision_passes:
  assumes "getParentNavigationDecision s this frm newFocus direction = Some r"
  shows "r = newFocus"
proof (rule getParentNavigationDecision.raw_induct
    [where P = "\<lambda>s this frm newFocus direction r. r = newFocus", OF _ assms], goal_cases)
  case (1 gp s this frm newFocus direction r)
  then show ?case by (auto split: option.splits)
qed

lemma getNextFocus_focusable:
  assumes "getNextFocus s this direction currentView = Some r"
  shows "\<forall>f. r = Some f \<longrightarrow> focusable (s f)"
proof (rule getNextFocus.raw_induct
    [where P = "\<lambda>s this direction currentView r. \<forall>f. r = Some f \<longrightarrow> focusable (s f)", OF _ assms],
    goal_cases)
  case (1 gn s this direction currentView r)
  then show ?case
    by (auto split: if_splits option.splits bind_splits
        dest!: getParentNavigationDecision_passes dest: scanLoop_focusable)
qed

lemma firstResolved_Some:
  "firstResolved res xs = Some f \<Longrightarrow>
     \<exists>skipped c rest. xs = skipped @ c # rest \<and> list_all (\<lambda>x. res x = None) skipped \<and> res c = Some f"
proof (induction xs)
  case Nil
  then show ?case by simp
next
  case (Cons x xs)
  show ?case
  proof (cases "res x")
    case None
    with Cons obtain skipped c rest where
      "xs = skipped @ c # rest" "list_all (\<lambda>x. res x = None) skipped" "res c = Some f"
      by auto
    then have "x # xs = (x # skipped) @ c # rest \<and> list_all (\<lambda>x. res x = None) (x # skipped)
        \<and> res c = Some f"
      using None by simp
    then show ?thesis by blast
  next
    case (Some g)
    with Cons.prems have "x # xs = [] @ x # xs \<and> list_all (\<lambda>x. res x = None) [] \<and> res x = Some f"
      by simp
    then show ?thesis by blast
  qed
qed

lemma firstResolved_None: "firstResolved res xs = None \<longleftrightarrow> list_all (\<lambda>x. res x = None) xs"
  by (induction xs) (auto split: option.splits)

lemma set_scanCandidates: "set (scanCandidates cs offset start) \<subseteq> set cs"
  by (auto simp: scanCandidates_def dest: in_set_dropD in_set_takeD)

lemma scanLoop_candidates:
  assumes len: "length cs < 2 ^ 64"
    and res: "\<forall>c\<in>set cs. getDefaultFocus s c = Some (res c)"
  shows "scanLoop s cs (scanOffset a direction) start =
           Some (firstResolved res (scanCandidates cs (scanOffset a direction) start))"
proof (cases "scanOffset a direction = 1")
  case True
  then show ?thesis using scan_forward [OF len res, of start] by (simp add: scanCandidates_def)
next
  case False
  then have m: "scanOffset a direction = - 1" using scanOffset_cases [of a direction] by simp
  show ?thesis using scan_backward [OF res, of start] by (simp add: m scanCandidates_def)
qed

lemma getNextFocus_root:
  assumes "\<not> mismatches (axis (s this)) direction"
    and "parentUserData (s currentView) = Some cached"
    and "parent (s this) = None"
    and "scanLoop s (children (s this)) (scanOffset (axis (s this)) direction)
           (cached + scanOffset (axis (s this)) direction) = Some found"
  shows "getNextFocus s this direction currentView = Some found"
  using assms
  by (subst getNextFocus.simps) (simp add: getParentNavigationDecision.simps)

lemma getNextFocus_delegates:
  assumes "\<not> mismatches (axis (s this)) direction"
    and "parentUserData (s currentView) = Some cached"
    and "parent (s this) = Some p"
    and "scanLoop s (children (s this)) (scanOffset (axis (s this)) direction)
           (cached + scanOffset (axis (s this)) direction) = Some None"
    and "getParentNavigationDecision s this this None direction = Some None"
  shows "getNextFocus s this direction currentView = getNextFocus s p direction this"
  using assms
  by (subst getNextFocus.simps) simp

lemma getParentNavigationDecision_returns:
  assumes "getParentNavigationDecision s this frm newFocus direction = Some r"
  shows "getParentNavigationDecision s this frm other direction = Some other"
proof (rule getParentNavigationDecision.raw_induct
    [where P = "\<lambda>s this frm newFocus direction r.
                  getParentNavigationDecision s this frm other direction = Some other",
      OF _ assms], goal_cases)
  case (1 gp s this frm newFocus direction r)
  show ?case
  proof (cases "parent (s this)")
    case None
    then show ?thesis by (subst getParentNavigationDecision.simps) simp
  next
    case (Some p)
    with 1 have "getParentNavigationDecision s p frm other direction = Some other" by simp
    with Some show ?thesis by (subst getParentNavigationDecision.simps) simp
  qed
qed

lemma getParentNavigationDecision_hook:
  "getParentNavigationDecision s this frm None direction \<noteq> None \<Longrightarrow>
     getParentNavigationDecision s this frm other direction = Some other"
  using getParentNavigationDecision_returns by fastforce

lemma getParentNavigationDecision_stuck:
  "getParentNavigationDecision s this frm None direction = None \<Longrightarrow>
     getParentNavigationDecision s this frm other direction = None"
  using getParentNavigationDecision_returns [of s this frm other direction _ None]
  by (cases "getParentNavigationDecision s this frm other direction") auto

lemma getNextFocus_aligned:
  assumes "\<not> mismatches (axis (s this)) direction"
    and "parentUserData (s currentView) = Some cached"
    and "scanLoop s (children (s this)) (scanOffset (axis (s this)) direction)
           (cached + scanOffset (axis (s this)) direction) = Some found"
  shows "getNextFocus s this direction currentView =
           getParentNavigationDecision s this this found direction \<bind>
             (\<lambda>currentFocus.
                if currentFocus = None \<and> parent (s this) \<noteq> None
                then getNextFocus s (the (parent (s this))) direction this
                else Some currentFocus)"
  using assms by (subst getNextFocus.simps) simp

subsection \<open>Directional navigation\<close>

text \<open>
  Claim C2.  Let the direction be aligned with the axis of the Box, let \<open>currentView\<close>
  carry the cached index \<open>cached\<close>, and let every child's \<open>getDefaultFocus\<close> return
  (\<open>res\<close> names what it returns).  Then the offset is \<open>-1\<close> for LEFT and UP and \<open>+1\<close> for
  RIGHT and DOWN; the scan, started at \<open>cached + offset\<close>, returns the first resolution
  that is not null among the siblings from there on in the direction of travel, so every
  sibling before the one it settles on resolved to null and that one did not.
  \<open>getNextFocus\<close> hands this result of the scan to the navigation hook and, when the hook
  yields null and the Box has a parent, goes on with the parent.  So, on any Box, with
  or without parent, whose hook returns: when the scan finds a view, \<open>getNextFocus\<close>
  returns that view; when the scan is exhausted, it returns what \<open>getNextFocus\<close> of the
  parent returns for this Box, and null when there is no parent.  When the hook does
  not return, neither does \<open>getNextFocus\<close>.  Whatever view \<open>getNextFocus\<close> returns
  resolves to itself under \<open>getDefaultFocus\<close>, never to null.
\<close>

theorem getNextFocus_scans_siblings:
  fixes s :: store and res :: "ref \<Rightarrow> ref option" and this currentView :: ref
    and direction :: FocusDirection and cached :: size_t
  defines "cs \<equiv> children (s this)"
    and "offset \<equiv> scanOffset (axis (s this)) direction"
  defines "candidates \<equiv> scanCandidates cs offset (cached + offset)"
  assumes aligned: "\<not> mismatches (axis (s this)) direction"
    and cache: "parentUserData (s currentView) = Some cached"
    and len: "length cs < 2 ^ 64"
    and res: "\<forall>c\<in>set cs. getDefaultFocus s c = Some (res c)"
  shows "offset = (if direction = LEFT \<or> direction = UP then - 1 else 1)
    \<and> scanLoop s cs offset (cached + offset) = Some (firstResolved res candidates)
    \<and> (\<forall>f. firstResolved res candidates = Some f \<longrightarrow>
          (\<exists>skipped c rest. candidates = skipped @ c # rest
             \<and> list_all (\<lambda>x. res x = None) skipped \<and> c \<in> set cs \<and> res c = Some f))
    \<and> (\<forall>c. getNextFocus s this direction currentView = Some (Some c) \<longrightarrow>
          getDefaultFocus s c = Some (Some c))
    \<and> (parent (s this) = None \<longrightarrow>
          getNextFocus s this direction currentView = Some (firstResolved res candidates))
    \<and> (\<forall>p. firstResolved res candidates = None \<and> parent (s this) = Some p
            \<and> getParentNavigationDecision s this this None direction = Some None
            \<and> getNextFocus s p direction this = Some None \<longrightarrow>
          getNextFocus s this direction currentView = Some None)
    \<and> getNextFocus s this direction currentView =
          getParentNavigationDecision s this this (firstResolved res candidates) direction \<bind>
            (\<lambda>currentFocus.
               if currentFocus = None \<and> parent (s this) \<noteq> None
               then getNextFocus s (the (parent (s this))) direction this
               else Some currentFocus)
    \<and> (\<forall>f. firstResolved res candidates = Some f
            \<and> getParentNavigationDecision s this this None direction \<noteq> None \<longrightarrow>
          getNextFocus s this direction currentView = Some (Some f))
    \<and> (\<forall>p. firstResolved res candidates = None \<and> parent (s this) = Some p
            \<and> getParentNavigationDecision s this this None direction \<noteq> None \<longrightarrow>
          getNextFocus s this direction currentView = getNextFocus s p direction this)
    \<and> (getParentNavigationDecision s this this None direction = None \<longrightarrow>
          getNextFocus s this direction currentView = None)"
proof -
  have off: "offset = (if direction = LEFT \<or> direction = UP then - 1 else 1)"
    using aligned unfolding offset_def scanOffset_def mismatches_def
    by (cases "axis (s this)"; cases direction) simp_all
  have scan: "scanLoop s cs offset (cached + offset) = Some (firstResolved res candidates)"
    unfolding offset_def candidates_def using scanLoop_candidates [OF len res] by simp
  have found: "\<exists>skipped c rest. candidates = skipped @ c # rest
             \<and> list_all (\<lambda>x. res x = None) skipped \<and> c \<in> set cs \<and> res c = Some f"
    if "firstResolved res candidates = Some f" for f
  proof -
    from firstResolved_Some [OF that] obtain skipped c rest where
      sp: "candidates = skipped @ c # rest" "list_all (\<lambda>x. res x = None) skipped" "res c = Some f"
      by blast
    then have "c \<in> set candidates" by simp
    then have "c \<in> set cs"
      using set_scanCandidates [of cs offset "cached + offset"] unfolding candidates_def by auto
    with sp show ?thesis by blast
  qed
  have never: "getDefaultFocus s c = Some (Some c)"
    if "getNextFocus s this direction currentView = Some (Some c)" for c
    using getNextFocus_focusable [OF that] by (simp add: getDefaultFocus_of_focusable)
  have root: "getNextFocus s this direction currentView = Some (firstResolved res candidates)"
    if "parent (s this) = None"
    using getNextFocus_root [OF aligned cache that] scan unfolding cs_def offset_def by simp
  have up: "getNextFocus s this direction currentView = Some None"
    if "firstResolved res candidates = None" "parent (s this) = Some p"
       "getParentNavigationDecision s this this None direction = Some None"
       "getNextFocus s p direction this = Some None" for p
    using getNextFocus_delegates [OF aligned cache that(2) _ that(3)] scan that(1,4)
    unfolding cs_def offset_def by simp
  have eq: "getNextFocus s this direction currentView =
          getParentNavigationDecision s this this (firstResolved res candidates) direction \<bind>
            (\<lambda>currentFocus.
               if currentFocus = None \<and> parent (s this) \<noteq> None
               then getNextFocus s (the (parent (s this))) direction this
               else Some currentFocus)"
    using getNextFocus_aligned [OF aligned cache] scan unfolding cs_def offset_def by simp
  have hit: "getNextFocus s this direction currentView = Some (Some f)"
    if "firstResolved res candidates = Some f"
       "getParentNavigationDecision s this this None direction \<noteq> None" for f
    using getParentNavigationDecision_hook [OF that(2), of "Some f"] that(1)
    by (subst eq) simp
  have pass: "getNextFocus s this direction currentView = getNextFocus s p direction this"
    if "firstResolved res candidates = None" "parent (s this) = Some p"
       "getParentNavigationDecision s this this None direction \<noteq> None" for p
    using getParentNavigationDecision_hook [OF that(3), of None] that(1,2)
    by (subst eq) simp
  have stuck: "getNextFocus s this direction currentView = None"
    if "getParentNavigationDecision s this this None direction = None"
    using getParentNavigationDecision_stuck [OF that, of "firstResolved res candidates"]
    by (subst eq) simp
  show ?thesis
    apply (intro conjI allI impI)
    subgoal by (rule off)
    subgoal by (rule scan)
    subgoal for f by (rule found)
    subgoal for c by (rule never)
    subgoal by (rule root)
    subgoal for p using up [of p] by blast
    subgoal by (rule eq)
    subgoal for f using hit [of f] by blast
    subgoal for p using pass [of p] by blast
    subgoal by (rule stuck)
    done
qed

text \<open>
  In the row of three, RIGHT from view 1 skips the unfocusable view 2 and lands on
  view 3, LEFT from view 3 lands on view 1, and RIGHT from view 3 exhausts the row of a
  Box without parent and returns null.  When the row lies in a COLUMN Box, RIGHT from
  view 1 still lands on view 3; RIGHT from view 3 exhausts the row, the hook passes
  null on, the parent does not serve RIGHT and has no parent of its own, and the result
  is null again.
\<close>

theorem getNextFocus_scans_siblings_witness:
  "getNextFocus rowOfThree 0 RIGHT 1 = Some (Some 3)
   \<and> getNextFocus rowOfThree 0 LEFT 3 = Some (Some 1)
   \<and> getNextFocus rowOfThree 0 RIGHT 3 = Some None
   \<and> getNextFocus nestedRow 0 RIGHT 3 = Some None
   \<and> getNextFocus nestedRow 0 RIGHT 1 = Some (Some 3)"
proof -
  note row = rowOfThree_def emptyBox_def blankView_def
  note nested = nestedRow_def row
  let ?res = "View_getDefaultFocus rowOfThree"
  let ?cand = "\<lambda>d cached. scanCandidates (children (rowOfThree 0))
                 (scanOffset (axis (rowOfThree 0)) d) (cached + scanOffset (axis (rowOfThree 0)) d)"
  have res: "\<forall>c\<in>set (children (rowOfThree 0)). getDefaultFocus rowOfThree c = Some (?res c)"
    by (simp add: row getDefaultFocus_def defaultFocus.simps)
  have len: "length (children (rowOfThree 0)) < 2 ^ 64" by (simp add: row)
  have al: "\<not> mismatches (axis (rowOfThree 0)) RIGHT" "\<not> mismatches (axis (rowOfThree 0)) LEFT"
    by (simp_all add: row mismatches_def)
  have ud: "parentUserData (rowOfThree 1) = Some 0" "parentUserData (rowOfThree 3) = Some 2"
    by (simp_all add: row)
  have root: "parent (rowOfThree 0) = None" by (simp add: row)
  have ev: "firstResolved ?res (?cand RIGHT 0) = Some 3" "firstResolved ?res (?cand LEFT 2) = Some 1"
      "firstResolved ?res (?cand RIGHT 2) = None"
    by (simp_all add: row scanCandidates_def scanOffset_def size_of_def View_getDefaultFocus_def)
  have "getNextFocus rowOfThree 0 RIGHT 1 = Some (firstResolved ?res (?cand RIGHT 0))"
    using getNextFocus_scans_siblings [OF al(1) ud(1) len res] root by blast
  moreover have "getNextFocus rowOfThree 0 LEFT 3 = Some (firstResolved ?res (?cand LEFT 2))"
    using getNextFocus_scans_siblings [OF al(2) ud(2) len res] root by blast
  moreover have "getNextFocus rowOfThree 0 RIGHT 3 = Some (firstResolved ?res (?cand RIGHT 2))"
    using getNextFocus_scans_siblings [OF al(1) ud(2) len res] root by blast
  moreover have "getNextFocus nestedRow 0 RIGHT 3 = Some None"
    and "getNextFocus nestedRow 0 RIGHT 1 = Some (Some 3)"
  proof -
    let ?nres = "View_getDefaultFocus nestedRow"
    let ?ncand = "\<lambda>cached. scanCandidates (children (nestedRow 0))
                    (scanOffset (axis (nestedRow 0)) RIGHT)
                    (cached + scanOffset (axis (nestedRow 0)) RIGHT)"
    have nres: "\<forall>c\<in>set (children (nestedRow 0)). getDefaultFocus nestedRow c = Some (?nres c)"
      by (simp add: nested getDefaultFocus_def defaultFocus.simps)
    have nlen: "length (children (nestedRow 0)) < 2 ^ 64" by (simp add: nested)
    have nal: "\<not> mismatches (axis (nestedRow 0)) RIGHT" by (simp add: nested mismatches_def)
    have nud: "parentUserData (nestedRow 3) = Some 2" "parentUserData (nestedRow 1) = Some 0"
      by (simp_all add: nested)
    have exhausted: "firstResolved ?nres (?ncand 2) = None"
      and finds: "firstResolved ?nres (?ncand 0) = Some 3"
      by (simp_all add: nested scanCandidates_def scanOffset_def size_of_def View_getDefaultFocus_def)
    have par: "parent (nestedRow 0) = Some 10" by (simp add: nested)
    have hook: "getParentNavigationDecision nestedRow 0 0 None RIGHT = Some None"
      by (simp add: nested getParentNavigationDecision.simps)
    then have returns: "getParentNavigationDecision nestedRow 0 0 None RIGHT \<noteq> None" by simp
    have above: "getNextFocus nestedRow 10 RIGHT 0 = Some None"
      by (subst getNextFocus.simps)
        (simp add: nested mismatches_def getParentNavigationDecision.simps)
    show "getNextFocus nestedRow 0 RIGHT 3 = Some None"
      using getNextFocus_scans_siblings [OF nal nud(1) nlen nres] exhausted par hook above by blast
    show "getNextFocus nestedRow 0 RIGHT 1 = Some (Some 3)"
      using getNextFocus_scans_siblings [OF nal nud(2) nlen nres] finds returns by blast
  qed
  ultimately show ?thesis by (simp only: ev)
qed

subsection \<open>Termination of the sibling scan\<close>

text \<open>
  Claim C9.  Whenever the calls of \<open>getDefaultFocus\<close> on the children return, the
  sibling scan returns, for either offset, every start index and every child list.  The
  index is a 64-bit unsigned word: one step left of index 0 is \<open>2 ^ 64 - 1\<close>, which is
  not below any child count, so the scan that reaches it stops with null; and
  \<open>0 \<le> index\<close> holds of every index, so the guard of the loop is \<open>index < size\<close> alone.
\<close>

theorem scanLoop_terminates:
  assumes "\<forall>c\<in>set cs. getDefaultFocus s c \<noteq> None"
  shows "(\<exists>r. scanLoop s cs (scanOffset a direction) i = Some r)
     \<and> unat (0 + (- 1) :: size_t) = 2 ^ 64 - 1
     \<and> \<not> (0 + (- 1) < size_of cs)
     \<and> scanLoop s cs (- 1) (0 + (- 1)) = Some None
     \<and> (0 \<le> i \<and> i < size_of cs \<longleftrightarrow> i < size_of cs)"
proof -
  have "\<exists>r. scanLoop s cs (scanOffset a direction) i = Some r"
    using scanOffset_cases [of a direction] scan_terminates_forward [OF assms, of i]
      scan_terminates_backward [OF assms, of i] by auto
  moreover have "scanLoop s cs (- 1) (0 + (- 1)) = Some None"
    by (subst scanLoop.simps) (simp add: minus_one_not_less)
  moreover have "unat (0 + (- 1) :: size_t) = 2 ^ 64 - 1"
    by (simp add: unsigned_minus_1_eq_mask mask_eq_exp_minus_1)
  ultimately show ?thesis by (simp add: minus_one_not_less)
qed

theorem scanLoop_terminates_witness:
  "(\<exists>r. scanLoop rowOfThree [1, 2, 3] (scanOffset ROW LEFT) 2 = Some r)
   \<and> (\<exists>r. scanLoop rowOfThree [1, 2, 3] (scanOffset ROW RIGHT) 0 = Some r)"
proof -
  have "\<forall>c\<in>set [1::ref, 2, 3]. getDefaultFocus rowOfThree c \<noteq> None"
    by (simp add: rowOfThree_def emptyBox_def blankView_def getDefaultFocus_def defaultFocus.simps)
  then show ?thesis
    using scanLoop_terminates [of "[1, 2, 3]" rowOfThree ROW LEFT 2]
      scanLoop_terminates [of "[1, 2, 3]" rowOfThree ROW RIGHT 0]
    by blast
qed

subsection \<open>Default focus\<close>

text \<open>
  Claim C3, evaluated where it fails.  In a Box that is not focusable and has two
  focusable children, view 1 gains focus, so \<open>onChildFocusGained\<close> makes it the
  \<open>lastFocusedView\<close> of the Box and \<open>getDefaultFocus\<close> of the Box returns view 1.  View 1
  then stops being focusable.  View 2 is now the one focusable descendant and resolves
  to itself, but \<open>getDefaultFocus\<close> of the Box returns null: it returns the resolution
  of \<open>lastFocusedView\<close> without the null test that the \<open>defaultFocusedIndex\<close> step makes,
  and never reaches the scan of the children.
\<close>

theorem getDefaultFocus_stale_lastFocusedView:
  "(case onChildFocusGained 0 1 1 twoFocusable of
      None \<Rightarrow> False
    | Some s1 \<Rightarrow>
        lastFocusedView (s1 0) = Some 1
        \<and> children (s1 0) = [1, 2]
        \<and> getDefaultFocus s1 0 = Some (Some 1)
        \<and> getDefaultFocus (s1(1 := (s1 1)\<lparr>focusable := False\<rparr>)) 1 = Some None
        \<and> getDefaultFocus (s1(1 := (s1 1)\<lparr>focusable := False\<rparr>)) 2 = Some (Some 2)
        \<and> getDefaultFocus (s1(1 := (s1 1)\<lparr>focusable := False\<rparr>)) 0 = Some None)"
  by (simp add: onChildFocusGained.simps twoFocusable_def emptyBox_def blankView_def
      getDefaultFocus_def defaultFocus.simps View_getDefaultFocus_def Let_def)

section \<open>Properties of the scheduler\<close>

lemma guardedCall_wellBehaved:
  "wellBehaved f \<Longrightarrow> guardedCall e f t = Inr (t\<lparr>journal := journal t @ callEntries e f\<rparr>)"
  by (cases "behaviour f") (simp_all add: wellBehaved_def guardedCall_def record_entry_def callEntries_def)

lemma syncLoop_wellBehaved:
  "list_all wellBehaved fs \<Longrightarrow>
     syncLoop fs t = Inr (t\<lparr>journal := journal t @ concat (map syncEntries fs)\<rparr>)"
proof (induction fs arbitrary: t)
  case Nil
  then show ?case by simp
next
  case (Cons f fs)
  then show ?case
    by (simp add: guardedCall_wellBehaved syncEntries_def)
qed

lemma guardedCall_escapes:
  "\<not> wellBehaved f \<Longrightarrow> guardedCall e f t = Inl (Escaped (t\<lparr>journal := journal t @ [e]\<rparr>))"
  by (simp add: wellBehaved_def guardedCall_def record_entry_def)

lemma syncLoop_served:
  "syncLoop fs t =
     (case dropWhile wellBehaved fs of
        [] \<Rightarrow> Inr (t\<lparr>journal := journal t @ concat (map syncEntries fs)\<rparr>)
      | g # behind \<Rightarrow>
          Inl (Escaped (t\<lparr>journal := journal t
                 @ concat (map syncEntries (takeWhile wellBehaved fs)) @ [SyncRan (label g)]\<rparr>)))"
proof (induction fs arbitrary: t)
  case Nil
  then show ?case by simp
next
  case (Cons f fs)
  show ?case
  proof (cases "wellBehaved f")
    case True
    have se: "callEntries (SyncRan (label f)) f = syncEntries f"
      by (simp add: syncEntries_def)
    show ?thesis
      using True
      by (cases "dropWhile wellBehaved fs")
        (simp_all add: guardedCall_wellBehaved Cons.IH se del: dropWhile_eq_Nil_conv)
  next
    case False
    then show ?thesis
      by (simp add: guardedCall_escapes)
  qed
qed

lemma delayLoop_served:
  assumes "m_delay_cancel_set t = C" and "reads t = r" and "clock t = c"
  shows "journal (outcomeState (delayLoop ds t)) = journal t
       @ concat (map (\<lambda>p. delayEntries (fst p))
           (filter (isDue c) (takeWhile (\<lambda>p. \<not> escapes c p) (stamped C r ds))))
       @ (case dropWhile (\<lambda>p. \<not> escapes c p) (stamped C r ds) of
            [] \<Rightarrow> []
          | x # behind \<Rightarrow> [DelayRan (index (fst x)) (label (func (fst x)))])
    \<and> m_delay_tasks (outcomeState (delayLoop ds t)) = m_delay_tasks t
       @ map fst (filter (\<lambda>p. \<not> isDue c p) (takeWhile (\<lambda>p. \<not> escapes c p) (stamped C r ds)))
    \<and> m_sync_functions (outcomeState (delayLoop ds t)) = m_sync_functions t
    \<and> (isl (delayLoop ds t) \<longleftrightarrow> dropWhile (\<lambda>p. \<not> escapes c p) (stamped C r ds) \<noteq> [])"
  using assms
proof (induction ds arbitrary: t C r)
  case Nil
  then show ?case by (simp add: outcomeState_def)
next
  case (Cons d ds)
  note st = Cons.prems
  show ?case
  proof (cases "index d \<in> C")
    case True
    let ?t1 = "t\<lparr>m_delay_cancel_set := C - {index d}\<rparr>"
    have step: "delayStep d t = Inr ?t1"
      using True st by (simp add: delayStep_def)
    have "m_delay_cancel_set ?t1 = C - {index d}" "reads ?t1 = r" "clock ?t1 = c"
      using st by simp_all
    note ih = Cons.IH [OF this]
    show ?thesis
      using True ih by (simp add: step)
  next
    case False
    show ?thesis
    proof (cases "isDue c (d, r)")
      case due: True
      show ?thesis
      proof (cases "wellBehaved (func d)")
        case True
        let ?t1 = "t\<lparr>reads := Suc r, journal := journal t @ delayEntries d\<rparr>"
        have step: "delayStep d t = Inr ?t1"
          using False due True st
          by (simp add: delayStep_def now_def isDue_def guardedCall_wellBehaved delayEntries_def)
        have "m_delay_cancel_set ?t1 = C" "reads ?t1 = Suc r" "clock ?t1 = c"
          using st by simp_all
        note ih = Cons.IH [OF this]
        show ?thesis
          using False due True ih by (simp add: step escapes_def)
      next
        case wb: False
        have step: "delayStep d t = Inl (Escaped (t\<lparr>reads := Suc r,
                       journal := journal t @ [DelayRan (index d) (label (func d))]\<rparr>))"
          using False due wb st
          by (simp add: delayStep_def now_def isDue_def guardedCall_escapes)
        show ?thesis
          using False due wb by (simp add: step escapes_def outcomeState_def)
      qed
    next
      case nd: False
      let ?t1 = "t\<lparr>reads := Suc r, m_delay_tasks := m_delay_tasks t @ [d]\<rparr>"
      have step: "delayStep d t = Inr ?t1"
        using False nd st by (simp add: delayStep_def now_def isDue_def)
      have "m_delay_cancel_set ?t1 = C" "reads ?t1 = Suc r" "clock ?t1 = c"
        using st by simp_all
      note ih = Cons.IH [OF this]
      show ?thesis
        using False nd ih by (simp add: step escapes_def)
    qed
  qed
qed















lemma runs_callEntries:
  "length (filter (ranDelayed i) (callEntries e f)) = (if ranDelayed i e then 1 else 0)"
  by (simp add: callEntries_def)

lemma runs_syncEntries: "filter (ranDelayed i) (concat (map syncEntries fs)) = []"
  by (induction fs) (simp_all add: syncEntries_def callEntries_def)

lemma runs_delayEntries:
  "distinct (map (\<lambda>p. index (fst p)) ps) \<Longrightarrow>
     length (filter (ranDelayed i) (concat (map (\<lambda>p. delayEntries (fst p)) ps)))
       = (if i \<in> (\<lambda>p. index (fst p)) ` set ps then 1 else 0)"
proof (induction ps)
  case Nil
  then show ?case by simp
next
  case (Cons p ps)
  then show ?case
    by (auto simp: delayEntries_def runs_callEntries)
qed

lemma runs_delayEntries_count:
  "length (filter (ranDelayed i) (concat (map (\<lambda>p. delayEntries (fst p)) ps)))
     = length (filter (\<lambda>p. index (fst p) = i) ps)"
  by (induction ps) (auto simp: delayEntries_def runs_callEntries)

lemma stamped_subset: "fst ` set (stamped C r ds) \<subseteq> set ds"
proof (induction ds arbitrary: C r)
  case Nil
  then show ?case by simp
next
  case (Cons d ds)
  show ?case
    using Cons.IH [of "C - {index d}" r] Cons.IH [of C "Suc r"] by auto
qed

lemma map_fst_stamped:
  "distinct (map index ds) \<Longrightarrow> map fst (stamped C r ds) = filter (\<lambda>d. index d \<notin> C) ds"
proof (induction ds arbitrary: C r)
  case Nil
  then show ?case by simp
next
  case (Cons d ds)
  have fresh: "index d \<notin> index ` set ds" and dist: "distinct (map index ds)"
    using Cons.prems by auto
  have "\<And>x. x \<in> set ds \<Longrightarrow> index x \<noteq> index d"
    using fresh by (metis imageI)
  then have "filter (\<lambda>x. index x \<notin> C - {index d}) ds = filter (\<lambda>x. index x \<notin> C) ds"
    by (intro filter_cong) auto
  then show ?case
    using Cons.IH [OF dist, of "C - {index d}" r] Cons.IH [OF dist, of C "Suc r"] by simp
qed

lemma distinct_stamped:
  assumes "distinct (map index ds)"
  shows "distinct (map (\<lambda>p. index (fst p)) (stamped C r ds))"
proof -
  have "map (\<lambda>p. index (fst p)) (stamped C r ds) = map index (map fst (stamped C r ds))"
    by simp
  also have "\<dots> = map index (filter (\<lambda>d. index d \<notin> C) ds)"
    by (simp only: map_fst_stamped [OF assms])
  finally show ?thesis using assms by (simp add: distinct_map_filter)
qed

lemma due_member:
  assumes d: "distinct (map (\<lambda>p. index (fst p)) ps)" and p: "p \<in> set ps"
  shows "index (fst p) \<in> (\<lambda>p. index (fst p)) ` set (filter P ps) \<longleftrightarrow> P p"
proof
  assume "index (fst p) \<in> (\<lambda>p. index (fst p)) ` set (filter P ps)"
  then obtain q where q: "q \<in> set ps" "P q" "index (fst q) = index (fst p)" by auto
  from d have "inj_on (\<lambda>p. index (fst p)) (set ps)" by (simp add: distinct_map)
  with q p have "q = p" by (auto dest: inj_onD)
  with q show "P p" by simp
next
  assume "P p"
  with p show "index (fst p) \<in> (\<lambda>p. index (fst p)) ` set (filter P ps)" by auto
qed

lemma queued_eq:
  "queued = idle\<lparr>m_delay_tasks := [operationF], m_delay_index := 1, reads := 1\<rparr>"
  by (simp add: queued_def delay_def now_def idle_def operationF_def Let_def)

lemma requeued_eq:
  "requeued = idle\<lparr>m_delay_tasks := [operationF], m_delay_index := 1, reads := 2\<rparr>"
  by (simp add: requeued_def queued_eq performSyncTasks_def delayStep_def now_def idle_def
      operationF_def elapsedMilliseconds_def outcomeState_def Let_def)


subsection \<open>Cancellation\<close>



subsection \<open>One tick\<close>

text \<open>
  Claim C5 as stated fails: the handler catches \<open>std::exception\<close> only.  The sync queue
  holds \<open>g\<close>, which throws a value of another type, and then \<open>f\<close>.  The exception
  leaves \<open>performSyncTasks\<close>; \<open>f\<close> is not called and is gone from the cleared queue.
\<close>

theorem performSyncTasks_uncaught_counterexample:
  "performSyncTasks (sync taskF (sync taskG idle)) = Inl (Escaped (idle\<lparr>journal := [SyncRan 8]\<rparr>))
   \<and> m_sync_functions (sync taskF (sync taskG idle)) = [taskG, taskF]
   \<and> SyncRan (label taskF)
        \<notin> set (journal (outcomeState (performSyncTasks (sync taskF (sync taskG idle)))))
   \<and> taskF
        \<notin> set (m_sync_functions (outcomeState (performSyncTasks (sync taskF (sync taskG idle)))))"
  by (simp add: performSyncTasks_def sync_def idle_def taskF_def taskG_def guardedCall_def
      record_entry_def outcomeState_def)

text \<open>
  Claim C5, amended.  The sync callbacks are called in the order of the queue, each one
  whether or not the ones before it failed with a \<open>std::exception\<close>, and each such
  failure is logged.  The delayed tasks that are not cancelled are then taken in the
  order of the queue, each with a clock reading of its own: one whose delay has elapsed
  is called and is not queued again, one whose delay has not elapsed is not called and
  is queued again, in the old order.  An exception of any other type is not caught: it
  leaves \<open>performSyncTasks\<close> at the first sync callback, or else the first due delayed
  task, that throws one; the calls before it have been made and logged as above,
  nothing behind it is called, and the sync queue is empty.  \<open>performSyncTasks\<close> returns
  exactly when no task it calls throws such a value, as when no queued task can.  When
  the identifiers of the pending tasks are distinct, the tasks that are not cancelled
  are those whose identifier is not in the cancel set, and each of them is called once
  if its delay has elapsed and not at all otherwise.
\<close>

theorem performSyncTasks_tick:
  fixes t :: Threading
  defines "fs \<equiv> m_sync_functions t"
    and "plan \<equiv> stamped (m_delay_cancel_set t) (reads t) (m_delay_tasks t)"
  defines "served \<equiv> takeWhile (\<lambda>p. \<not> escapes (clock t) p) plan"
  shows "(\<forall>g behind. dropWhile wellBehaved fs = g # behind \<longrightarrow>
        (\<exists>t'. performSyncTasks t = Inl (Escaped t')
          \<and> journal t' = journal t @ concat (map syncEntries (takeWhile wellBehaved fs))
               @ [SyncRan (label g)]
          \<and> m_sync_functions t' = []
          \<and> m_delay_tasks t' = m_delay_tasks t))
    \<and> (\<forall>x behind. list_all wellBehaved fs
          \<and> dropWhile (\<lambda>p. \<not> escapes (clock t) p) plan = x # behind \<longrightarrow>
        (\<exists>t'. performSyncTasks t = Inl (Escaped t')
          \<and> journal t' = journal t @ concat (map syncEntries fs)
               @ concat (map (\<lambda>p. delayEntries (fst p)) (filter (isDue (clock t)) served))
               @ [DelayRan (index (fst x)) (label (func (fst x)))]
          \<and> m_sync_functions t' = []
          \<and> m_delay_tasks t' = map fst (filter (\<lambda>p. \<not> isDue (clock t) p) served)))
    \<and> (list_all wellBehaved fs \<and> list_all (\<lambda>p. \<not> escapes (clock t) p) plan \<longrightarrow>
        (\<exists>t'. performSyncTasks t = Inr t'
          \<and> journal t' = journal t @ concat (map syncEntries fs)
               @ concat (map (\<lambda>p. delayEntries (fst p)) (filter (isDue (clock t)) plan))
          \<and> m_sync_functions t' = []
          \<and> m_delay_tasks t' = map fst (filter (\<lambda>p. \<not> isDue (clock t) p) plan)
          \<and> (\<forall>i. timesRun i t' = timesRun i t
                 + length (filter (\<lambda>p. index (fst p) = i \<and> isDue (clock t) p) plan))
          \<and> (distinct (map index (m_delay_tasks t)) \<longrightarrow>
               (\<forall>p\<in>set plan. timesRun (index (fst p)) t'
                  = timesRun (index (fst p)) t + (if isDue (clock t) p then 1 else 0)))))
    \<and> (isl (performSyncTasks t) \<longleftrightarrow>
         \<not> (list_all wellBehaved fs \<and> list_all (\<lambda>p. \<not> escapes (clock t) p) plan))
    \<and> (list_all (\<lambda>d. wellBehaved (func d)) (m_delay_tasks t) \<longrightarrow>
         list_all (\<lambda>p. \<not> escapes (clock t) p) plan)
    \<and> (distinct (map index (m_delay_tasks t)) \<longrightarrow>
         map fst plan = filter (\<lambda>d. index d \<notin> m_delay_cancel_set t) (m_delay_tasks t))"
proof -
  let ?t1 = "t\<lparr>m_sync_functions := []\<rparr>"
  let ?t2 = "?t1\<lparr>journal := journal ?t1 @ concat (map syncEntries fs)\<rparr>"
  let ?t3 = "?t2\<lparr>m_delay_tasks := []\<rparr>"
  let ?r = "delayLoop (m_delay_tasks t) ?t3"
  have a: "\<exists>t'. performSyncTasks t = Inl (Escaped t')
          \<and> journal t' = journal t @ concat (map syncEntries (takeWhile wellBehaved fs))
               @ [SyncRan (label g)]
          \<and> m_sync_functions t' = []
          \<and> m_delay_tasks t' = m_delay_tasks t"
    if "dropWhile wellBehaved fs = g # behind" for g behind
    using that syncLoop_served [of "m_sync_functions t" ?t1]
    by (simp add: performSyncTasks_def fs_def)
  have a': "isl (performSyncTasks t)" if "\<not> list_all wellBehaved fs"
  proof -
    from that have "dropWhile wellBehaved fs \<noteq> []"
      by (simp add: dropWhile_eq_Nil_conv list_all_iff)
    then obtain g behind where "dropWhile wellBehaved fs = g # behind"
      by (cases "dropWhile wellBehaved fs") simp_all
    from a [OF this] show ?thesis by auto
  qed
  have p: "performSyncTasks t = ?r" if "list_all wellBehaved fs"
  proof -
    from that have "dropWhile wellBehaved (m_sync_functions t) = []"
      by (simp add: dropWhile_eq_Nil_conv list_all_iff fs_def)
    then have "syncLoop (m_sync_functions t) ?t1 = Inr ?t2"
      using syncLoop_served [of "m_sync_functions t" ?t1]
      by (simp add: fs_def del: dropWhile_eq_Nil_conv)
    then show ?thesis by (simp add: performSyncTasks_def)
  qed
  have dl: "journal (outcomeState ?r) = journal t @ concat (map syncEntries fs)
               @ concat (map (\<lambda>p. delayEntries (fst p)) (filter (isDue (clock t)) served))
               @ (case dropWhile (\<lambda>p. \<not> escapes (clock t) p) plan of
                    [] \<Rightarrow> []
                  | x # behind \<Rightarrow> [DelayRan (index (fst x)) (label (func (fst x)))])"
    "m_delay_tasks (outcomeState ?r) = map fst (filter (\<lambda>p. \<not> isDue (clock t) p) served)"
    "m_sync_functions (outcomeState ?r) = []"
    "isl ?r \<longleftrightarrow> dropWhile (\<lambda>p. \<not> escapes (clock t) p) plan \<noteq> []"
    using delayLoop_served [of ?t3 "m_delay_cancel_set t" "reads t" "clock t" "m_delay_tasks t"]
    by (simp_all add: plan_def served_def)
  have b: "\<exists>t'. performSyncTasks t = Inl (Escaped t')
          \<and> journal t' = journal t @ concat (map syncEntries fs)
               @ concat (map (\<lambda>p. delayEntries (fst p)) (filter (isDue (clock t)) served))
               @ [DelayRan (index (fst x)) (label (func (fst x)))]
          \<and> m_sync_functions t' = []
          \<and> m_delay_tasks t' = map fst (filter (\<lambda>p. \<not> isDue (clock t) p) served)"
    if ok: "list_all wellBehaved fs"
      and dw: "dropWhile (\<lambda>p. \<not> escapes (clock t) p) plan = x # behind" for x behind
  proof -
    from dl(4) dw have "isl ?r" by simp
    then obtain t' where r: "?r = Inl (Escaped t')"
      by (cases ?r) (auto intro: escaped.exhaust)
    then have o: "outcomeState ?r = t'" by (simp add: outcomeState_def)
    show ?thesis
      using dl(1-3) [unfolded o] dw p [OF ok] r by simp
  qed
  have c: "\<exists>t'. performSyncTasks t = Inr t'
          \<and> journal t' = journal t @ concat (map syncEntries fs)
               @ concat (map (\<lambda>p. delayEntries (fst p)) (filter (isDue (clock t)) plan))
          \<and> m_sync_functions t' = []
          \<and> m_delay_tasks t' = map fst (filter (\<lambda>p. \<not> isDue (clock t) p) plan)
          \<and> (\<forall>i. timesRun i t' = timesRun i t
                 + length (filter (\<lambda>p. index (fst p) = i \<and> isDue (clock t) p) plan))
          \<and> (distinct (map index (m_delay_tasks t)) \<longrightarrow>
               (\<forall>p\<in>set plan. timesRun (index (fst p)) t'
                  = timesRun (index (fst p)) t + (if isDue (clock t) p then 1 else 0)))"
    if ok: "list_all wellBehaved fs" and none: "list_all (\<lambda>p. \<not> escapes (clock t) p) plan"
  proof -
    from none have dw: "dropWhile (\<lambda>p. \<not> escapes (clock t) p) plan = []"
      and sv: "served = plan"
      by (simp_all add: dropWhile_eq_Nil_conv takeWhile_eq_all_conv list_all_iff served_def)
    from dl(4) dw have "\<not> isl ?r" by simp
    then obtain t' where r: "?r = Inr t'" by (cases ?r) auto
    then have o: "outcomeState ?r = t'" by (simp add: outcomeState_def)
    have j: "journal t' = journal t @ concat (map syncEntries fs)
               @ concat (map (\<lambda>p. delayEntries (fst p)) (filter (isDue (clock t)) plan))"
      and sf: "m_sync_functions t' = []"
      and q: "m_delay_tasks t' = map fst (filter (\<lambda>p. \<not> isDue (clock t) p) plan)"
      using dl(1-3) [unfolded o] dw sv by (simp_all del: dropWhile_eq_Nil_conv)
    have count: "timesRun i t' = timesRun i t
                 + length (filter (\<lambda>p. index (fst p) = i \<and> isDue (clock t) p) plan)" for i
      by (simp add: timesRun_def j runs_syncEntries runs_delayEntries_count conj_commute)
    have once: "timesRun (index (fst p)) t'
            = timesRun (index (fst p)) t + (if isDue (clock t) p then 1 else 0)"
      if ids: "distinct (map index (m_delay_tasks t))" and m: "p \<in> set plan" for p
    proof -
      have dp: "distinct (map (\<lambda>p. index (fst p)) plan)"
        unfolding plan_def using ids by (rule distinct_stamped)
      then have dd: "distinct (map (\<lambda>p. index (fst p)) (filter (isDue (clock t)) plan))"
        by (simp add: distinct_map_filter)
      show ?thesis
        using due_member [OF dp m, of "isDue (clock t)"]
          runs_delayEntries [OF dd, of "index (fst p)"]
        by (simp add: timesRun_def j runs_syncEntries)
    qed
    from p [OF ok] r j sf q count once show ?thesis by simp
  qed
  have d: "isl (performSyncTasks t) \<longleftrightarrow>
         \<not> (list_all wellBehaved fs \<and> list_all (\<lambda>p. \<not> escapes (clock t) p) plan)"
  proof (cases "list_all wellBehaved fs")
    case True
    have "dropWhile (\<lambda>p. \<not> escapes (clock t) p) plan = []
            \<longleftrightarrow> list_all (\<lambda>p. \<not> escapes (clock t) p) plan"
      by (simp add: dropWhile_eq_Nil_conv list_all_iff)
    with True p [OF True] dl(4) show ?thesis by (simp add: list_all_iff)
  next
    case False
    with a' show ?thesis by simp
  qed
  have e: "list_all (\<lambda>p. \<not> escapes (clock t) p) plan"
    if "list_all (\<lambda>d. wellBehaved (func d)) (m_delay_tasks t)"
    using that stamped_subset [of "m_delay_cancel_set t" "reads t" "m_delay_tasks t"]
    by (auto simp: list_all_iff escapes_def plan_def)
  have f: "map fst plan = filter (\<lambda>d. index d \<notin> m_delay_cancel_set t) (m_delay_tasks t)"
    if "distinct (map index (m_delay_tasks t))"
    unfolding plan_def using that by (rule map_fst_stamped)
  show ?thesis
    apply (intro conjI allI impI)
    subgoal for g behind by (rule a)
    subgoal for x behind by (rule b) simp_all
    subgoal by (rule c) simp_all
    subgoal by (rule d)
    subgoal by (rule e)
    subgoal by (rule f)
    done
qed

text \<open>
  The scenario of the spec: after \<open>delay(100, f)\<close> the tick at 50 ms queues \<open>f\<close> again
  without calling it, and the tick at 150 ms calls \<open>f\<close> once and leaves the queue empty.
  And with \<open>f\<close> and then \<open>g\<close> in the sync queue, \<open>f\<close> is called, then \<open>g\<close>, whose
  exception leaves \<open>performSyncTasks\<close>; so does the exception of \<open>g\<close> when \<open>g\<close> is a
  delayed task that is due.
\<close>

theorem performSyncTasks_tick_witness:
  "(\<exists>t1. performSyncTasks queued = Inr t1 \<and> journal t1 = [] \<and> m_delay_tasks t1 = [operationF]
       \<and> timesRun 1 t1 = 0)
   \<and> (\<exists>t2. performSyncTasks requeued = Inr t2 \<and> journal t2 = [DelayRan 1 7]
       \<and> m_delay_tasks t2 = [] \<and> timesRun 1 t2 = 1)
   \<and> (\<exists>t3. performSyncTasks (sync taskG (sync taskF idle)) = Inl (Escaped t3)
       \<and> journal t3 = [SyncRan 7, SyncRan 8] \<and> m_sync_functions t3 = [])
   \<and> (\<exists>t4. performSyncTasks (snd (delay 0 taskG idle)) = Inl (Escaped t4)
       \<and> journal t4 = [DelayRan 1 8] \<and> m_delay_tasks t4 = [])"
proof -
  have q: "m_sync_functions queued = []" "m_delay_tasks queued = [operationF]"
      "m_delay_cancel_set queued = {}" "reads queued = Suc 0" "journal queued = []"
      "clock queued (Suc 0) = 50000000"
    by (simp_all add: queued_eq idle_def)
  have r: "m_sync_functions requeued = []" "m_delay_tasks requeued = [operationF]"
      "m_delay_cancel_set requeued = {}" "reads requeued = 2" "journal requeued = []"
      "clock requeued 2 = 150000000"
    by (simp_all add: requeued_eq idle_def)
  have o: "wellBehaved (func operationF)" "index operationF = 1" "startPoint operationF = 0"
      "delayMilliseconds operationF = 100" "label (func operationF) = 7"
      "behaviour (func operationF) = Returns"
    by (simp_all add: operationF_def taskF_def wellBehaved_def)
  have dq: "\<not> isDue (clock queued) (operationF, Suc 0)" and dr: "isDue (clock requeued) (operationF, 2)"
    by (simp_all add: isDue_def q r o elapsedMilliseconds_def)
  have g: "m_sync_functions (sync taskG (sync taskF idle)) = [taskF, taskG]"
      "journal (sync taskG (sync taskF idle)) = []"
      "wellBehaved taskF" "\<not> wellBehaved taskG" "label taskF = 7" "label taskG = 8"
      "behaviour taskF = Returns"
    by (simp_all add: sync_def idle_def taskF_def taskG_def wellBehaved_def)
  have h: "m_sync_functions (snd (delay 0 taskG idle)) = []"
      "m_delay_tasks (snd (delay 0 taskG idle))
         = [\<lparr>startPoint = 0, delayMilliseconds = 0, func = taskG, index = 1\<rparr>]"
      "m_delay_cancel_set (snd (delay 0 taskG idle)) = {}" "reads (snd (delay 0 taskG idle)) = Suc 0"
      "journal (snd (delay 0 taskG idle)) = []"
      "clock (snd (delay 0 taskG idle)) (Suc 0) = 50000000"
    by (simp_all add: delay_def now_def idle_def Let_def)
  have "\<exists>t1. performSyncTasks queued = Inr t1 \<and> journal t1 = [] \<and> m_delay_tasks t1 = [operationF]
       \<and> timesRun 1 t1 = 0"
    using performSyncTasks_tick [of queued, THEN conjunct2, THEN conjunct2, THEN conjunct1]
    by (auto simp: q o dq escapes_def timesRun_def)
  moreover have "\<exists>t2. performSyncTasks requeued = Inr t2 \<and> journal t2 = [DelayRan 1 7]
       \<and> m_delay_tasks t2 = [] \<and> timesRun 1 t2 = 1"
    using performSyncTasks_tick [of requeued, THEN conjunct2, THEN conjunct2, THEN conjunct1]
    by (auto simp: r o dr escapes_def timesRun_def delayEntries_def callEntries_def)
  moreover have "\<exists>t3. performSyncTasks (sync taskG (sync taskF idle)) = Inl (Escaped t3)
       \<and> journal t3 = [SyncRan 7, SyncRan 8] \<and> m_sync_functions t3 = []"
    using performSyncTasks_tick [of "sync taskG (sync taskF idle)", THEN conjunct1]
    by (auto simp: g syncEntries_def callEntries_def)
  moreover have "\<exists>t4. performSyncTasks (snd (delay 0 taskG idle)) = Inl (Escaped t4)
       \<and> journal t4 = [DelayRan 1 8] \<and> m_delay_tasks t4 = []"
    using performSyncTasks_tick [of "snd (delay 0 taskG idle)", THEN conjunct2, THEN conjunct1]
    by (auto simp: h g isDue_def escapes_def elapsedMilliseconds_def)
  ultimately show ?thesis by simp
qed

end
